theory Spec2Isabelle
  imports Main
begin

section \<open>Time, strings and exceptions\<close>

text \<open>
  \<open>datetime.now()\<close> has microsecond resolution, so a point in time is a number of
  microseconds and a \<open>timedelta\<close> is a difference of two of them. Every operation below
  takes the clock reading as its argument \<open>now\<close>: the readings taken inside one call
  of a method are identified (the scan of a pool is taken to be instantaneous).
\<close>

definition seconds :: "int \<Rightarrow> int" where
  "seconds n = n * 1000000"

definition minutes :: "int \<Rightarrow> int" where
  "minutes n = n * 60000000"

definition hours :: "int \<Rightarrow> int" where
  "hours n = n * 3600000000"

text \<open>
  Strings are byte lists. \<open>str.lower()\<close> is modelled on the letters A to Z; the
  patterns the error handler looks for are ASCII.
\<close>

definition lower_char :: "char \<Rightarrow> char" where
  "lower_char c =
     (if 65 \<le> (of_char c :: nat) \<and> (of_char c :: nat) \<le> 90
      then char_of ((of_char c :: nat) + 32) else c)"

definition lower :: "string \<Rightarrow> string" where
  "lower s = map lower_char s"

fun starts_with :: "string \<Rightarrow> string \<Rightarrow> bool" where
  "starts_with [] s = True"
| "starts_with (p # ps) [] = False"
| "starts_with (p # ps) (c # cs) = (p = c \<and> starts_with ps cs)"

text \<open>\<open>contains sub s\<close> is Python's \<open>sub in s\<close>.\<close>

fun contains :: "string \<Rightarrow> string \<Rightarrow> bool" where
  "contains sub [] = (sub = [])"
| "contains sub (c # cs) = (starts_with sub (c # cs) \<or> contains sub cs)"

text \<open>
  The exceptions of the two managers. \<open>APIStatusError\<close> carries the HTTP status code
  and the text \<open>str(e)\<close>; \<open>OtherException\<close> is any other \<open>Exception\<close> with its text
  (the plain \<open>Exception\<close> that the key selection raises is one of them).
\<close>

datatype py_error =
    APIStatusError int string
  | OtherException string
  | KeyError string
  | IndexError
  | ValueError string
  | UnboundLocalError
  | TypeError

definition all_keys_exhausted_msg :: string where
  "all_keys_exhausted_msg =
     ''Todas as chaves OpenRouter est'' @ [CHR 0xC3, CHR 0xA3] @
     ''o esgotadas ou em cooldown.''"

definition no_keys_msg :: string where
  "no_keys_msg =
     ''Nenhuma chave OpenRouter encontrada nas vari'' @ [CHR 0xC3, CHR 0xA1] @
     ''veis de ambiente''"

definition min_empty_msg :: string where
  "min_empty_msg = ''min() arg is an empty sequence''"

text \<open>\<open>str(error)\<close>; a \<open>KeyError\<close> prints the \<open>repr\<close> of the missing key.\<close>

fun error_str :: "py_error \<Rightarrow> string" where
  "error_str (APIStatusError code msg) = msg"
| "error_str (OtherException msg) = msg"
| "error_str (KeyError k) = [CHR 0x27] @ k @ [CHR 0x27]"
| "error_str IndexError = ''list index out of range''"
| "error_str (ValueError msg) = msg"
| "error_str UnboundLocalError =
     ''cannot access local variable 'api_key' where it is not associated with a value''"
| "error_str TypeError = ''exceptions must derive from BaseException''"


section \<open>The OpenRouter key manager (openrouter_api_manager.py)\<close>

record key_stats =
  requests :: int
  errors :: int
  stat_last_used :: "int option"
  credits_exhausted :: bool
  rate_limited :: bool

record or_manager =
  api_keys :: "string list"
  current_key_index :: nat
  key_usage_stats :: "string \<rightharpoonup> key_stats"
  key_cooldowns :: "string \<rightharpoonup> int"

definition max_retries :: nat where
  "max_retries = 3"

subsection \<open>Construction\<close>

text \<open>A value of the environment is truthy when it is set and not empty.\<close>

definition truthy :: "string option \<Rightarrow> bool" where
  "truthy v = (case v of None \<Rightarrow> False | Some s \<Rightarrow> s \<noteq> [])"

fun str_nat :: "nat \<Rightarrow> string" where
  "str_nat n =
     (if n < 10 then [char_of (48 + n)]
      else str_nat (n div 10) @ [char_of (48 + n mod 10)])"

declare str_nat.simps [simp del]

definition env_keys :: "(string \<Rightarrow> string option) \<Rightarrow> string list \<Rightarrow> string list" where
  "env_keys getenv names = map (\<lambda>n. the (getenv n)) (filter (\<lambda>n. truthy (getenv n)) names)"

text \<open>\<open>_load_api_keys\<close>: the main key, then the keys numbered 1 to 9.\<close>

definition load_api_keys :: "(string \<Rightarrow> string option) \<Rightarrow> py_error + string list" where
  "load_api_keys getenv =
     (let keys = env_keys getenv
            (''OPENROUTER_API_KEY'' #
             map (\<lambda>i. ''OPENROUTER_API_KEY_'' @ str_nat i) [1 ..< 10])
      in if keys = [] then Inl (ValueError no_keys_msg) else Inr keys)"

definition fresh_stats :: key_stats where
  "fresh_stats = \<lparr>requests = 0, errors = 0, stat_last_used = None,
     credits_exhausted = False, rate_limited = False\<rparr>"

text \<open>\<open>__init__\<close>: the exception of \<open>_load_api_keys\<close> is not caught.\<close>

definition or_init :: "(string \<Rightarrow> string option) \<Rightarrow> py_error + or_manager" where
  "or_init getenv =
     (case load_api_keys getenv of
        Inl e \<Rightarrow> Inl e
      | Inr keys \<Rightarrow> Inr \<lparr>api_keys = keys, current_key_index = 0,
          key_usage_stats = (\<lambda>k. if k \<in> set keys then Some fresh_stats else None),
          key_cooldowns = Map.empty\<rparr>)"

subsection \<open>Selection\<close>

text \<open>
  \<open>_rotate_to_next_key\<close>. Both of its callers run it on a manager that has just read
  a key from the list, so the list is not empty there.
\<close>

definition rotate_to_next_key :: "or_manager \<Rightarrow> or_manager" where
  "rotate_to_next_key s =
     s\<lparr>current_key_index := (current_key_index s + 1) mod length (api_keys s)\<rparr>"

text \<open>
  \<open>_notify_all_keys_exhausted\<close>: the result says whether the critical message is
  logged.
\<close>

fun notify_scan :: "or_manager \<Rightarrow> string list \<Rightarrow> py_error + bool" where
  "notify_scan s [] = Inr True"
| "notify_scan s (key # ks) =
     (case key_usage_stats s key of
        None \<Rightarrow> Inl (KeyError key)
      | Some stats \<Rightarrow>
          if \<not> credits_exhausted stats \<and> key_cooldowns s key = None then Inr False
          else notify_scan s ks)"

definition notify_all_keys_exhausted :: "or_manager \<Rightarrow> py_error + bool" where
  "notify_all_keys_exhausted s = notify_scan s (api_keys s)"

text \<open>
  The \<open>for k in self.api_keys\<close> loop of the fallback: the first key that is not in the
  cooldown table and not out of credits.
\<close>

fun fallback_scan :: "or_manager \<Rightarrow> string list \<Rightarrow> py_error + string option" where
  "fallback_scan s [] = Inr None"
| "fallback_scan s (k # ks) =
     (if key_cooldowns s k = None then
        (case key_usage_stats s k of
           None \<Rightarrow> Inl (KeyError k)
         | Some stats \<Rightarrow>
             if \<not> credits_exhausted stats then Inr (Some k) else fallback_scan s ks)
      else fallback_scan s ks)"

text \<open>
  \<open>min(self.api_keys, key=lambda k: ...['errors'])\<close>: the first key with the least
  error count.
\<close>

fun min_errors_from :: "(string \<rightharpoonup> key_stats) \<Rightarrow> string \<Rightarrow> int \<Rightarrow> string list
    \<Rightarrow> py_error + string" where
  "min_errors_from usage best e [] = Inr best"
| "min_errors_from usage best e (k # ks) =
     (case usage k of
        None \<Rightarrow> Inl (KeyError k)
      | Some stats \<Rightarrow>
          if errors stats < e then min_errors_from usage k (errors stats) ks
          else min_errors_from usage best e ks)"

definition best_key :: "or_manager \<Rightarrow> py_error + string" where
  "best_key s =
     (case api_keys s of
        [] \<Rightarrow> Inl (ValueError min_empty_msg)
      | k # ks \<Rightarrow>
          (case key_usage_stats s k of
             None \<Rightarrow> Inl (KeyError k)
           | Some stats \<Rightarrow> min_errors_from (key_usage_stats s) k (errors stats) ks))"

text \<open>
  The block that runs once every key has been looked at: notify, then the fallback
  loop, then the exception.
\<close>

definition all_checked :: "or_manager \<Rightarrow> (py_error + string) \<times> or_manager" where
  "all_checked s =
     (case notify_all_keys_exhausted s of
        Inl e \<Rightarrow> (Inl e, s)
      | Inr logged \<Rightarrow>
          (case fallback_scan s (api_keys s) of
             Inl e \<Rightarrow> (Inl e, s)
           | Inr (Some k) \<Rightarrow> (Inr k, s)
           | Inr None \<Rightarrow> (Inl (OtherException all_keys_exhausted_msg), s)))"

text \<open>
  The \<open>while attempts < len(self.api_keys)\<close> loop of \<open>_get_next_available_key\<close>,
  with the code after the loop as its last branch. A key in unexpired cooldown takes
  the \<open>continue\<close>: the cursor moves on and the test at the end of the body is skipped.
\<close>

function get_key_loop :: "int \<Rightarrow> nat \<Rightarrow> nat \<Rightarrow> or_manager
    \<Rightarrow> (py_error + string) \<times> or_manager" where
  "get_key_loop now initial_index attempts s =
     (if attempts < length (api_keys s) then
        (if current_key_index s < length (api_keys s) then
           (let key = api_keys s ! current_key_index s in
            case key_usage_stats s key of
              None \<Rightarrow> (Inl (KeyError key), s)
            | Some stats \<Rightarrow>
                if (case key_cooldowns s key of None \<Rightarrow> False
                    | Some cooldown_until \<Rightarrow> now < cooldown_until)
                then get_key_loop now initial_index (attempts + 1) (rotate_to_next_key s)
                else
                  (let stats1 = (if key_cooldowns s key = None then stats
                         else stats\<lparr>credits_exhausted := False, rate_limited := False\<rparr>);
                       s1 = (if key_cooldowns s key = None then s
                         else s\<lparr>key_cooldowns := (key_cooldowns s)(key := None),
                                key_usage_stats := (key_usage_stats s)(key \<mapsto> stats1)\<rparr>)
                   in if \<not> credits_exhausted stats1 \<and> \<not> rate_limited stats1
                      then (Inr key, s1)
                      else
                        (let s2 = rotate_to_next_key s1 in
                         if attempts + 1 = length (api_keys s2)
                            \<and> current_key_index s2 = initial_index
                         then all_checked s2
                         else get_key_loop now initial_index (attempts + 1) s2)))
         else (Inl IndexError, s))
      else (case best_key s of Inl e \<Rightarrow> (Inl e, s) | Inr k \<Rightarrow> (Inr k, s)))"
  by pat_completeness auto
termination
  by (relation "measure (\<lambda>(now, initial_index, attempts, s). length (api_keys s) - attempts)")
     (auto simp: rotate_to_next_key_def Let_def)

declare get_key_loop.simps [simp del]

definition get_next_available_key :: "int \<Rightarrow> or_manager \<Rightarrow> (py_error + string) \<times> or_manager" where
  "get_next_available_key now s = get_key_loop now (current_key_index s) 0 s"

subsection \<open>Reporting a failure\<close>

definition is_payment_error :: "string \<Rightarrow> bool" where
  "is_payment_error error_str_lower \<longleftrightarrow>
     contains ''402'' error_str_lower \<or> contains ''credit'' error_str_lower
     \<or> contains ''payment'' error_str_lower"

definition is_rate_limit_error :: "string \<Rightarrow> bool" where
  "is_rate_limit_error error_str_lower \<longleftrightarrow>
     contains ''429'' error_str_lower \<or> contains ''rate limit'' error_str_lower"

text \<open>\<open>_handle_api_error\<close>: count the error, then set the cooldown of its class.\<close>

definition handle_api_error :: "int \<Rightarrow> string \<Rightarrow> py_error \<Rightarrow> or_manager
    \<Rightarrow> py_error + or_manager" where
  "handle_api_error now key error s =
     (case key_usage_stats s key of
        None \<Rightarrow> Inl (KeyError key)
      | Some stats0 \<Rightarrow>
          (let stats = stats0\<lparr>errors := errors stats0 + 1\<rparr>;
               e = lower (error_str error)
           in if is_payment_error e then
                Inr (s\<lparr>key_usage_stats := (key_usage_stats s)(key \<mapsto> stats\<lparr>credits_exhausted := True\<rparr>),
                       key_cooldowns := (key_cooldowns s)(key \<mapsto> now + hours 1)\<rparr>)
              else if is_rate_limit_error e then
                Inr (s\<lparr>key_usage_stats := (key_usage_stats s)(key \<mapsto> stats\<lparr>rate_limited := True\<rparr>),
                       key_cooldowns := (key_cooldowns s)(key \<mapsto> now + minutes 5)\<rparr>)
              else
                Inr (s\<lparr>key_usage_stats := (key_usage_stats s)(key \<mapsto> stats),
                       key_cooldowns := (key_cooldowns s)(key \<mapsto> now + seconds 30)\<rparr>)))"

subsection \<open>The retry loop\<close>

text \<open>
  What the outside world does in one attempt of \<open>chat_completion\<close>: the clock when
  the key is selected, what \<open>client.chat.completions.create\<close> does, and the clock when
  the failure is handled. The sleep between two attempts shows only in these clock
  readings.
\<close>

datatype 'r call_outcome = Returns 'r | Raises py_error

record 'r attempt =
  select_time :: int
  outcome :: "'r call_outcome"
  failure_time :: int

datatype 'r step_result =
    Done "py_error + 'r" or_manager
  | Retry string py_error or_manager

text \<open>\<open>e.status_code == 402\<close>, tested in the handler of \<open>openai.APIStatusError\<close> only.\<close>

fun is_status_402 :: "py_error \<Rightarrow> bool" where
  "is_status_402 (APIStatusError code msg) = (code = 402)"
| "is_status_402 e = False"

text \<open>
  The two \<open>except\<close> blocks. \<open>api_key\<close> is the local variable: it has no value when
  the selection of the first attempt raises, and it keeps the key of the attempt before
  when a later selection raises.
\<close>

definition on_exception :: "int \<Rightarrow> py_error \<Rightarrow> string option \<Rightarrow> or_manager \<Rightarrow> 'r step_result" where
  "on_exception now e api_key s =
     (case api_key of
        None \<Rightarrow> Done (Inl UnboundLocalError) s
      | Some k \<Rightarrow>
          (case handle_api_error now k e s of
             Inl e' \<Rightarrow> Done (Inl e') s
           | Inr s' \<Rightarrow> if is_status_402 e then Done (Inl e) s' else Retry k e s'))"

text \<open>The body of \<open>for attempt in range(self.max_retries)\<close>.\<close>

definition run_attempt :: "'r attempt \<Rightarrow> string option \<Rightarrow> or_manager \<Rightarrow> 'r step_result" where
  "run_attempt io api_key s =
     (case get_next_available_key (select_time io) s of
        (Inl e, s1) \<Rightarrow> on_exception (failure_time io) e api_key s1
      | (Inr key, s1) \<Rightarrow>
          (case key_usage_stats s1 key of
             None \<Rightarrow> on_exception (failure_time io) (KeyError key) (Some key) s1
           | Some stats \<Rightarrow>
               (let s2 = s1\<lparr>key_usage_stats := (key_usage_stats s1)(key \<mapsto>
                           stats\<lparr>requests := requests stats + 1,
                                 stat_last_used := Some (select_time io)\<rparr>)\<rparr>
                in case outcome io of
                     Returns r \<Rightarrow> Done (Inr r) (rotate_to_next_key s2)
                   | Raises e \<Rightarrow> on_exception (failure_time io) e (Some key) s2)))"

text \<open>The loop over the attempts, and \<open>raise last_error\<close> after it.\<close>

fun chat_attempts :: "(nat \<Rightarrow> 'r attempt) \<Rightarrow> nat list \<Rightarrow> string option \<Rightarrow> py_error option
    \<Rightarrow> or_manager \<Rightarrow> (py_error + 'r) \<times> or_manager" where
  "chat_attempts world [] api_key last_error s =
     (case last_error of None \<Rightarrow> (Inl TypeError, s) | Some e \<Rightarrow> (Inl e, s))"
| "chat_attempts world (attempt # rest) api_key last_error s =
     (case run_attempt (world attempt) api_key s of
        Done r s' \<Rightarrow> (r, s')
      | Retry k e s' \<Rightarrow> chat_attempts world rest (Some k) (Some e) s')"

definition chat_completion :: "(nat \<Rightarrow> 'r attempt) \<Rightarrow> or_manager \<Rightarrow> (py_error + 'r) \<times> or_manager" where
  "chat_completion world s = chat_attempts world [0 ..< max_retries] None None s"

subsection \<open>Administration\<close>

definition clear_flags :: "key_stats \<Rightarrow> key_stats" where
  "clear_flags stats = stats\<lparr>credits_exhausted := False, rate_limited := False\<rparr>"

fun clear_all_flags :: "(string \<rightharpoonup> key_stats) \<Rightarrow> string list \<Rightarrow> py_error + (string \<rightharpoonup> key_stats)" where
  "clear_all_flags usage [] = Inr usage"
| "clear_all_flags usage (key # ks) =
     (case usage key of
        None \<Rightarrow> Inl (KeyError key)
      | Some stats \<Rightarrow> clear_all_flags (usage(key \<mapsto> clear_flags stats)) ks)"

text \<open>\<open>reset_key_status\<close>: one key by its index, or all of them.\<close>

definition reset_key_status :: "int option \<Rightarrow> or_manager \<Rightarrow> py_error + or_manager" where
  "reset_key_status key_index s =
     (case key_index of
        Some i \<Rightarrow>
          if 0 \<le> i \<and> i < int (length (api_keys s)) then
            (let key = api_keys s ! nat i in
             case key_usage_stats s key of
               None \<Rightarrow> Inl (KeyError key)
             | Some stats \<Rightarrow>
                 Inr (s\<lparr>key_usage_stats := (key_usage_stats s)(key \<mapsto> clear_flags stats),
                        key_cooldowns := (key_cooldowns s)(key := None)\<rparr>))
          else Inr s
      | None \<Rightarrow>
          (case clear_all_flags (key_usage_stats s) (api_keys s) of
             Inl e \<Rightarrow> Inl e
           | Inr usage \<Rightarrow> Inr (s\<lparr>key_usage_stats := usage, key_cooldowns := Map.empty\<rparr>)))"

subsection \<open>The states a manager can be in\<close>

text \<open>
  \<open>or_reachable now s\<close>: the manager can be in state \<open>s\<close> when the clock shows \<open>now\<close>.
  It starts as the constructor leaves it; the clock never runs backwards; each step
  is one of the operations above, run at the current clock reading.
\<close>

inductive or_reachable :: "int \<Rightarrow> or_manager \<Rightarrow> bool" where
  reach_init: "or_init getenv = Inr s \<Longrightarrow> or_reachable now s"
| reach_tick: "or_reachable now s \<Longrightarrow> now \<le> later \<Longrightarrow> or_reachable later s"
| reach_select: "or_reachable now s \<Longrightarrow> get_next_available_key now s = (r, s')
     \<Longrightarrow> or_reachable now s'"
| reach_used: "or_reachable now s \<Longrightarrow> key_usage_stats s key = Some stats
     \<Longrightarrow> or_reachable now (s\<lparr>key_usage_stats := (key_usage_stats s)(key \<mapsto>
           stats\<lparr>requests := requests stats + 1, stat_last_used := Some now\<rparr>)\<rparr>)"
| reach_rotate: "or_reachable now s \<Longrightarrow> or_reachable now (rotate_to_next_key s)"
| reach_error: "or_reachable now s \<Longrightarrow> handle_api_error now key e s = Inr s'
     \<Longrightarrow> or_reachable now s'"
| reach_reset: "or_reachable now s \<Longrightarrow> reset_key_status key_index s = Inr s'
     \<Longrightarrow> or_reachable now s'"

section \<open>The multi-service rotation manager (enhanced_api_rotation_manager.py)\<close>

datatype APIStatus = ACTIVE | RATE_LIMITED | ERROR | OFFLINE

record APIEndpoint =
  name :: string
  api_key :: string
  base_url :: string
  status :: APIStatus
  last_used :: "int option"
  error_count :: int
  rate_limit_reset :: "int option"
  requests_made :: int
  max_requests_per_minute :: int

record rotation_manager =
  apis :: "string \<rightharpoonup> APIEndpoint list"
  current_api_index :: "string \<rightharpoonup> nat"
  last_health_check :: "string \<rightharpoonup> int"

definition health_check_interval :: int where
  "health_check_interval = 300"

subsection \<open>Construction\<close>

definition new_endpoint :: "string \<Rightarrow> string \<Rightarrow> string \<Rightarrow> int \<Rightarrow> APIEndpoint" where
  "new_endpoint nm key url cap =
     \<lparr>name = nm, api_key = key, base_url = url, status = ACTIVE, last_used = None,
      error_count = 0, rate_limit_reset = None, requests_made = 0,
      max_requests_per_minute = cap\<rparr>"

text \<open>
  \<open>if key and key not in [placeholders..., None]\<close>: the value is set, not empty and
  none of the placeholders.
\<close>

definition configured :: "string list \<Rightarrow> string option \<Rightarrow> bool" where
  "configured placeholders v = (truthy v \<and> the v \<notin> set placeholders)"

text \<open>
  One \<open>for i, key in enumerate(keys, 1)\<close> loop: the endpoints of the configured keys,
  each named after its position in the list of variables.
\<close>

definition endpoints_of :: "string \<Rightarrow> string \<Rightarrow> int \<Rightarrow> string list \<Rightarrow> string option list
    \<Rightarrow> APIEndpoint list" where
  "endpoints_of prefix url cap placeholders keys =
     map (\<lambda>(i, v). new_endpoint (prefix @ str_nat i) (the v) url cap)
       (filter (\<lambda>(i, v). configured placeholders v) (enumerate 1 keys))"

text \<open>The single-key services: the endpoint has a fixed name.\<close>

definition endpoint_of :: "string \<Rightarrow> string \<Rightarrow> int \<Rightarrow> string list \<Rightarrow> string option
    \<Rightarrow> APIEndpoint list" where
  "endpoint_of nm url cap placeholders v =
     (if configured placeholders v then [new_endpoint nm (the v) url cap] else [])"

definition service_names :: "string list" where
  "service_names = [''qwen'', ''gemini'', ''groq'', ''tavily'', ''exa'', ''serpapi'', ''youtube'']"

text \<open>\<open>_load_api_configurations\<close>: the pool of each service.\<close>

definition load_pool :: "(string \<Rightarrow> string option) \<Rightarrow> string \<Rightarrow> APIEndpoint list" where
  "load_pool getenv service =
     (if service = ''qwen'' then
        endpoints_of ''qwen_''
          (case getenv ''OPENROUTER_BASE_URL'' of
             None \<Rightarrow> ''https://openrouter.ai/api/v1'' | Some u \<Rightarrow> u)
          100 [''your_openrouter_key_1'', ''your_openrouter_key_2'']
          [getenv ''OPENROUTER_API_KEY'', getenv ''OPENROUTER_API_KEY_1'',
           getenv ''OPENROUTER_API_KEY_2'']
      else if service = ''gemini'' then
        endpoints_of ''gemini_'' ''https://generativelanguage.googleapis.com/v1beta''
          60 [''your_gemini_key_1'', ''your_gemini_key_2'']
          [getenv ''GEMINI_API_KEY'', getenv ''GEMINI_API_KEY_1'']
      else if service = ''groq'' then
        endpoints_of ''groq_'' ''https://api.groq.com/openai/v1''
          30 [''your_groq_key_1'', ''your_groq_key_2'']
          [getenv ''GROQ_API_KEY'', getenv ''GROQ_API_KEY_1'']
      else if service = ''tavily'' then
        endpoint_of ''tavily_1'' ''https://api.tavily.com'' 100 [''your_tavily_key_1'']
          (getenv ''TAVILY_API_KEY'')
      else if service = ''exa'' then
        endpoints_of ''exa_'' ''https://api.exa.ai'' 100 [''your_exa_key_1'']
          [getenv ''EXA_API_KEY'', getenv ''EXA_API_KEY_1'']
      else if service = ''serpapi'' then
        endpoint_of ''serper_1'' ''https://google.serper.dev/search'' 100
          [''your_serpapi_key_1''] (getenv ''SERPER_API_KEY'')
      else if service = ''youtube'' then
        endpoint_of ''youtube_1'' ''https://www.googleapis.com/youtube/v3'' 100
          [''your_youtube_key_1''] (getenv ''YOUTUBE_API_KEY'')
      else [])"

text \<open>
  \<open>__init__\<close>: the seven pools, every cursor at 0, and the last health check set ten
  minutes back by \<open>_initialize_health_monitoring\<close>.
\<close>

definition rm_init :: "(string \<Rightarrow> string option) \<Rightarrow> int \<Rightarrow> rotation_manager" where
  "rm_init getenv now =
     \<lparr>apis = (\<lambda>service. if service \<in> set service_names
                then Some (load_pool getenv service) else None),
      current_api_index = (\<lambda>service. if service \<in> set service_names
                then Some 0 else None),
      last_health_check = (\<lambda>service. if service \<in> set service_names
                then Some (now - minutes 10) else None)\<rparr>"

subsection \<open>Health\<close>

text \<open>
  \<open>_is_api_available\<close>: the answer and the record as the evaluation leaves it.
\<close>

definition is_api_available :: "int \<Rightarrow> APIEndpoint \<Rightarrow> bool \<times> APIEndpoint" where
  "is_api_available now api =
     (if status api = OFFLINE then (False, api)
      else if status api = RATE_LIMITED then
        (case rate_limit_reset api of
           None \<Rightarrow> (False, api)
         | Some reset \<Rightarrow>
             if now > reset then (True, api\<lparr>status := ACTIVE, requests_made := 0\<rparr>)
             else (False, api))
      else if status api = ERROR \<and> error_count api > 5 then (False, api)
      else (True, api))"

text \<open>The body of the loop of \<open>_perform_health_check\<close>, for one record.\<close>

definition sweep_api :: "int \<Rightarrow> APIEndpoint \<Rightarrow> APIEndpoint" where
  "sweep_api now api =
     (if status api = OFFLINE then api
      else
        (let api1 = (case rate_limit_reset api of
                 None \<Rightarrow> api
               | Some reset \<Rightarrow>
                   if now > reset
                   then api\<lparr>status := ACTIVE, rate_limit_reset := None, requests_made := 0\<rparr>
                   else api)
         in if requests_made api1 \<ge> max_requests_per_minute api1
            then api1\<lparr>status := RATE_LIMITED, rate_limit_reset := Some (now + minutes 1)\<rparr>
            else api1))"

definition needs_health_check :: "int \<Rightarrow> string \<Rightarrow> rotation_manager \<Rightarrow> bool" where
  "needs_health_check now service s =
     (case last_health_check s service of
        None \<Rightarrow> True
      | Some last_check \<Rightarrow> now - last_check > seconds health_check_interval)"

text \<open>
  \<open>_perform_health_check\<close>; the \<open>KeyError\<close> of an unknown service is caught and
  logged there, and nothing is written.
\<close>

definition perform_health_check :: "int \<Rightarrow> string \<Rightarrow> rotation_manager \<Rightarrow> rotation_manager" where
  "perform_health_check now service s =
     (case apis s service of
        None \<Rightarrow> s
      | Some pool \<Rightarrow>
          s\<lparr>apis := (apis s)(service \<mapsto> map (sweep_api now) pool),
            last_health_check := (last_health_check s)(service \<mapsto> now)\<rparr>)"

subsection \<open>Selection\<close>

text \<open>
  The \<open>for i in range(len(apis))\<close> loop of \<open>get_active_api\<close> over the offsets still
  to try: the index of the first available record and the pool as the evaluations
  leave it.
\<close>

fun scan_pool :: "int \<Rightarrow> nat \<Rightarrow> APIEndpoint list \<Rightarrow> nat list \<Rightarrow> (nat \<times> APIEndpoint list) option" where
  "scan_pool now start_index pool [] = None"
| "scan_pool now start_index pool (i # rest) =
     (let index = (start_index + i) mod length pool;
          (ok, api) = is_api_available now (pool ! index);
          pool1 = pool[index := api]
      in if ok then Some (index, pool1) else scan_pool now start_index pool1 rest)"

text \<open>
  \<open>get_active_api\<close>: the record returned (\<open>None\<close> when the service has no pool or no
  record is available) and the manager afterwards.
\<close>

definition get_active_api :: "int \<Rightarrow> string \<Rightarrow> bool \<Rightarrow> rotation_manager
    \<Rightarrow> (py_error + APIEndpoint option) \<times> rotation_manager" where
  "get_active_api now service force_check s =
     (case apis s service of
        None \<Rightarrow> (Inr None, s)
      | Some [] \<Rightarrow> (Inr None, s)
      | Some (a # as) \<Rightarrow>
          (let s1 = (if force_check \<or> needs_health_check now service s
                     then perform_health_check now service s else s)
           in case apis s1 service of
                None \<Rightarrow> (Inl (KeyError service), s1)
              | Some pool \<Rightarrow>
                  (case current_api_index s1 service of
                     None \<Rightarrow> (Inl (KeyError service), s1)
                   | Some start_index \<Rightarrow>
                       (case scan_pool now start_index pool [0 ..< length pool] of
                          None \<Rightarrow> (Inr None, s1)
                        | Some (index, pool1) \<Rightarrow>
                            (let api = (pool1 ! index)\<lparr>last_used := Some now,
                                   requests_made := requests_made (pool1 ! index) + 1\<rparr>
                             in (Inr (Some api),
                                 s1\<lparr>apis := (apis s1)(service \<mapsto> pool1[index := api]),
                                    current_api_index :=
                                      (current_api_index s1)(service \<mapsto> index)\<rparr>))))))"

subsection \<open>Reports and administration\<close>

text \<open>
  The loop of \<open>mark_api_error\<close>: the first record with the name is changed, then
  \<open>break\<close>.
\<close>

definition count_error :: "APIEndpoint \<Rightarrow> APIEndpoint" where
  "count_error api =
     (let api1 = api\<lparr>error_count := error_count api + 1\<rparr>
      in if error_count api1 > 3 then api1\<lparr>status := ERROR\<rparr> else api1)"

fun update_first :: "string \<Rightarrow> (APIEndpoint \<Rightarrow> APIEndpoint) \<Rightarrow> APIEndpoint list \<Rightarrow> APIEndpoint list" where
  "update_first api_name f [] = []"
| "update_first api_name f (api # rest) =
     (if name api = api_name then f api # rest else api # update_first api_name f rest)"

definition mark_api_error :: "string \<Rightarrow> string \<Rightarrow> rotation_manager \<Rightarrow> py_error + rotation_manager" where
  "mark_api_error service api_name s =
     (case apis s service of
        None \<Rightarrow> Inl (KeyError service)
      | Some pool \<Rightarrow> Inr (s\<lparr>apis := (apis s)(service \<mapsto> update_first api_name count_error pool)\<rparr>))"

text \<open>\<open>mark_api_rate_limited\<close>, with \<open>reset_time or (now + one minute)\<close>.\<close>

definition limit_api :: "int \<Rightarrow> int option \<Rightarrow> APIEndpoint \<Rightarrow> APIEndpoint" where
  "limit_api now reset_time api =
     api\<lparr>status := RATE_LIMITED,
         rate_limit_reset := Some (case reset_time of None \<Rightarrow> now + minutes 1 | Some t \<Rightarrow> t)\<rparr>"

definition mark_api_rate_limited :: "int \<Rightarrow> string \<Rightarrow> string \<Rightarrow> int option \<Rightarrow> rotation_manager
    \<Rightarrow> py_error + rotation_manager" where
  "mark_api_rate_limited now service api_name reset_time s =
     (case apis s service of
        None \<Rightarrow> Inl (KeyError service)
      | Some pool \<Rightarrow>
          Inr (s\<lparr>apis := (apis s)(service \<mapsto> update_first api_name (limit_api now reset_time) pool)\<rparr>))"

text \<open>
  \<open>reset_api_errors\<close>: one service, or every service when none (or an empty name) is
  given.
\<close>

definition reset_errors :: "APIEndpoint \<Rightarrow> APIEndpoint" where
  "reset_errors api =
     (let api1 = api\<lparr>error_count := 0\<rparr>
      in if status api1 = ERROR then api1\<lparr>status := ACTIVE\<rparr> else api1)"

definition reset_api_errors :: "string option \<Rightarrow> rotation_manager \<Rightarrow> py_error + rotation_manager" where
  "reset_api_errors service s =
     (if truthy service then
        (case apis s (the service) of
           None \<Rightarrow> Inl (KeyError (the service))
         | Some pool \<Rightarrow> Inr (s\<lparr>apis := (apis s)(the service \<mapsto> map reset_errors pool)\<rparr>))
      else Inr (s\<lparr>apis := (\<lambda>svc. map_option (map reset_errors) (apis s svc))\<rparr>))"

section \<open>Notions used in the statements\<close>

text \<open>
  What the loop of \<open>_get_next_available_key\<close> does to a key whose cooldown has
  expired: the entry leaves the table and both flags are cleared.
\<close>

definition expire_key :: "string \<Rightarrow> key_stats \<Rightarrow> or_manager \<Rightarrow> or_manager" where
  "expire_key key stats s =
     s\<lparr>key_cooldowns := (key_cooldowns s)(key := None),
       key_usage_stats := (key_usage_stats s)(key \<mapsto>
          stats\<lparr>credits_exhausted := False, rate_limited := False\<rparr>)\<rparr>"

text \<open>
  The longest cooldown a key with these flags can have been given, and the invariant
  that no entry of the cooldown table lies further ahead of the clock than that.
\<close>

definition cooldown_bound :: "key_stats \<Rightarrow> int" where
  "cooldown_bound stats =
     (if credits_exhausted stats then hours 1
      else if rate_limited stats then minutes 5 else seconds 30)"

definition cooldowns_bounded :: "int \<Rightarrow> or_manager \<Rightarrow> bool" where
  "cooldowns_bounded now s \<longleftrightarrow>
     (\<forall>key T stats. key_cooldowns s key = Some T \<and> key_usage_stats s key = Some stats
        \<longrightarrow> T \<le> now + cooldown_bound stats)"

text \<open>
  A key is cooling when the cooldown table holds an expiry for it that lies after the
  clock; it is flagged when one of its two status flags is set.
\<close>

definition cooling :: "int \<Rightarrow> or_manager \<Rightarrow> string \<Rightarrow> bool" where
  "cooling now s key =
     (case key_cooldowns s key of None \<Rightarrow> False | Some cooldown_until \<Rightarrow> now < cooldown_until)"

definition flagged :: "key_stats \<Rightarrow> bool" where
  "flagged stats \<longleftrightarrow> credits_exhausted stats \<or> rate_limited stats"

text \<open>
  What holds of every state the key manager can be in: there is a key, the cursor points
  into the list, the statistics are those of the keys, and a flagged key has an entry
  in the cooldown table.
\<close>

definition or_inv :: "or_manager \<Rightarrow> bool" where
  "or_inv s \<longleftrightarrow>
     api_keys s \<noteq> [] \<and> current_key_index s < length (api_keys s)
     \<and> dom (key_usage_stats s) = set (api_keys s)
     \<and> (\<forall>key stats. key_usage_stats s key = Some stats \<and> flagged stats
           \<longrightarrow> key_cooldowns s key \<noteq> None)"

text \<open>
  The environment variables that \<open>_load_api_configurations\<close> reads for a service,
  and the ten that \<open>_load_api_keys\<close> reads.
\<close>

definition service_variables :: "string \<Rightarrow> string list" where
  "service_variables service =
     (if service = ''qwen'' then
        [''OPENROUTER_API_KEY'', ''OPENROUTER_API_KEY_1'', ''OPENROUTER_API_KEY_2'']
      else if service = ''gemini'' then [''GEMINI_API_KEY'', ''GEMINI_API_KEY_1'']
      else if service = ''groq'' then [''GROQ_API_KEY'', ''GROQ_API_KEY_1'']
      else if service = ''tavily'' then [''TAVILY_API_KEY'']
      else if service = ''exa'' then [''EXA_API_KEY'', ''EXA_API_KEY_1'']
      else if service = ''serpapi'' then [''SERPER_API_KEY'']
      else if service = ''youtube'' then [''YOUTUBE_API_KEY'']
      else [])"

definition openrouter_variables :: "string list" where
  "openrouter_variables =
     [''OPENROUTER_API_KEY'', ''OPENROUTER_API_KEY_1'', ''OPENROUTER_API_KEY_2'',
      ''OPENROUTER_API_KEY_3'', ''OPENROUTER_API_KEY_4'', ''OPENROUTER_API_KEY_5'',
      ''OPENROUTER_API_KEY_6'', ''OPENROUTER_API_KEY_7'', ''OPENROUTER_API_KEY_8'',
      ''OPENROUTER_API_KEY_9'']"

text \<open>Reading the outcome of a selection: the name of the record returned, if any.\<close>

definition selected_name :: "(py_error + APIEndpoint option) \<times> rotation_manager \<Rightarrow> string option" where
  "selected_name r = (case fst r of Inr (Some api) \<Rightarrow> Some (name api) | _ \<Rightarrow> None)"

text \<open>The names of the records of a service that the lazy evaluation finds available.\<close>

definition usable_records :: "int \<Rightarrow> string \<Rightarrow> rotation_manager \<Rightarrow> string list option" where
  "usable_records now service s =
     map_option (\<lambda>pool. map name (filter (\<lambda>api. fst (is_api_available now api)) pool))
       (apis s service)"

section \<open>Example configurations\<close>

text \<open>Environments with one and with two OpenRouter keys, and the managers built from them.\<close>

definition one_key_env :: "string \<Rightarrow> string option" where
  "one_key_env v = (if v = ''OPENROUTER_API_KEY'' then Some ''sk-1'' else None)"

definition two_key_env :: "string \<Rightarrow> string option" where
  "two_key_env v =
     (if v = ''OPENROUTER_API_KEY'' then Some ''sk-1''
      else if v = ''OPENROUTER_API_KEY_1'' then Some ''sk-2'' else None)"

definition one_key_manager :: or_manager where
  "one_key_manager =
     \<lparr>api_keys = [''sk-1''], current_key_index = 0,
      key_usage_stats = [''sk-1'' \<mapsto> fresh_stats], key_cooldowns = Map.empty\<rparr>"

definition two_key_manager :: or_manager where
  "two_key_manager =
     \<lparr>api_keys = [''sk-1'', ''sk-2''], current_key_index = 0,
      key_usage_stats = [''sk-1'' \<mapsto> fresh_stats, ''sk-2'' \<mapsto> fresh_stats],
      key_cooldowns = Map.empty\<rparr>"

text \<open>Failures as the OpenAI client reports them.\<close>

definition error_429 :: py_error where
  "error_429 = APIStatusError 429 ''Error code: 429 - Rate limit exceeded''"

definition error_402 :: py_error where
  "error_402 = APIStatusError 402 ''Error code: 402 - Insufficient credits''"

definition error_500 :: py_error where
  "error_500 = APIStatusError 500 ''Error code: 500 - Internal server error''"

text \<open>
  A status 429 whose text speaks of credits: the handler files it under payment, the
  retry loop does not.
\<close>

definition error_429_credits :: py_error where
  "error_429_credits = APIStatusError 429
     ''Error code: 429 - Rate limit exceeded: free-models-per-day. Add 10 credits to unlock 1000 free model requests per day''"

text \<open>
  The one-key manager after a 429 reported at time 0, and after a 402 reported at
  time 0.
\<close>

definition limited_manager :: or_manager where
  "limited_manager =
     \<lparr>api_keys = [''sk-1''], current_key_index = 0,
      key_usage_stats = [''sk-1'' \<mapsto> fresh_stats\<lparr>errors := 1, rate_limited := True\<rparr>],
      key_cooldowns = [''sk-1'' \<mapsto> minutes 5]\<rparr>"

definition exhausted_manager :: or_manager where
  "exhausted_manager =
     \<lparr>api_keys = [''sk-1''], current_key_index = 0,
      key_usage_stats = [''sk-1'' \<mapsto> fresh_stats\<lparr>errors := 1, credits_exhausted := True\<rparr>],
      key_cooldowns = [''sk-1'' \<mapsto> hours 1]\<rparr>"

text \<open>
  A run in which every call is answered with status 429, and the two-key manager as
  the first two attempts of that run leave it.
\<close>

definition always_429 :: "nat \<Rightarrow> string attempt" where
  "always_429 n = \<lparr>select_time = seconds (4 * int n), outcome = Raises error_429,
     failure_time = seconds (4 * int n + 1)\<rparr>"

definition both_limited :: or_manager where
  "both_limited =
     \<lparr>api_keys = [''sk-1'', ''sk-2''], current_key_index = 1,
      key_usage_stats =
        [''sk-1'' \<mapsto> \<lparr>requests = 1, errors = 1, stat_last_used = Some 0,
                       credits_exhausted = False, rate_limited = True\<rparr>,
         ''sk-2'' \<mapsto> \<lparr>requests = 1, errors = 1, stat_last_used = Some (seconds 4),
                       credits_exhausted = False, rate_limited = True\<rparr>],
      key_cooldowns = [''sk-1'' \<mapsto> seconds 1 + minutes 5, ''sk-2'' \<mapsto> seconds 5 + minutes 5]\<rparr>"

text \<open>A run whose first call fails with the 429 that speaks of credits.\<close>

definition credits_then_ok :: "nat \<Rightarrow> string attempt" where
  "credits_then_ok n =
     \<lparr>select_time = seconds (4 * int n),
      outcome = (if n = 0 then Raises error_429_credits else Returns ''ok''),
      failure_time = seconds (4 * int n + 1)\<rparr>"

text \<open>A run in which every call is answered with status 402.\<close>

definition always_402 :: "nat \<Rightarrow> string attempt" where
  "always_402 n = \<lparr>select_time = seconds (4 * int n), outcome = Raises error_402,
     failure_time = seconds (4 * int n + 1)\<rparr>"

text \<open>An environment in which no variable is set.\<close>

definition empty_env :: "string \<Rightarrow> string option" where
  "empty_env v = None"

text \<open>
  An environment with two Gemini keys, the two endpoints built from it, and the manager
  constructed at time 0.
\<close>

definition two_gemini_env :: "string \<Rightarrow> string option" where
  "two_gemini_env v =
     (if v = ''GEMINI_API_KEY'' then Some ''g-1''
      else if v = ''GEMINI_API_KEY_1'' then Some ''g-2'' else None)"

definition gemini_1 :: APIEndpoint where
  "gemini_1 = new_endpoint ''gemini_1'' ''g-1''
     ''https://generativelanguage.googleapis.com/v1beta'' 60"

definition gemini_2 :: APIEndpoint where
  "gemini_2 = new_endpoint ''gemini_2'' ''g-2''
     ''https://generativelanguage.googleapis.com/v1beta'' 60"

definition two_gemini_manager :: rotation_manager where
  "two_gemini_manager = rm_init two_gemini_env 0"

text \<open>Two selections in a row, at time 0 and one second later.\<close>

definition first_selection :: "(py_error + APIEndpoint option) \<times> rotation_manager" where
  "first_selection = get_active_api 0 ''gemini'' False two_gemini_manager"

definition second_selection :: "(py_error + APIEndpoint option) \<times> rotation_manager" where
  "second_selection = get_active_api (seconds 1) ''gemini'' False (snd first_selection)"

text \<open>The second endpoint after five reported errors, and the manager holding it.\<close>

definition worn_gemini_2 :: APIEndpoint where
  "worn_gemini_2 = gemini_2\<lparr>status := ERROR, error_count := 5\<rparr>"

definition worn_manager :: rotation_manager where
  "worn_manager =
     two_gemini_manager\<lparr>apis := (apis two_gemini_manager)(''gemini'' \<mapsto> [gemini_1, worn_gemini_2])\<rparr>"

text \<open>
  An endpoint whose request counter stands at its cap, and a rate-limited endpoint
  whose reset time (minute 1) has passed by minute 2.
\<close>

definition capped_endpoint :: APIEndpoint where
  "capped_endpoint =
     (new_endpoint ''gemini_1'' ''key-1'' ''https://generativelanguage.googleapis.com/v1beta'' 60)
       \<lparr>requests_made := 60\<rparr>"

definition stale_endpoint :: APIEndpoint where
  "stale_endpoint =
     (new_endpoint ''gemini_1'' ''key-1'' ''https://generativelanguage.googleapis.com/v1beta'' 60)
       \<lparr>status := RATE_LIMITED, rate_limit_reset := Some (minutes 1), requests_made := 7\<rparr>"

text \<open>A run in which every call succeeds.\<close>

definition always_ok :: "nat \<Rightarrow> string attempt" where
  "always_ok n = \<lparr>select_time = seconds (4 * int n), outcome = Returns ''ok'',
     failure_time = seconds (4 * int n + 1)\<rparr>"

section \<open>The cooldown table of the OpenRouter manager\<close>

lemma all_checked_state: "all_checked s = (r, s') \<Longrightarrow> s' = s"
  by (auto simp: all_checked_def split: sum.splits option.splits)

lemma rotate_fields [simp]:
  "key_cooldowns (rotate_to_next_key s) = key_cooldowns s"
  "key_usage_stats (rotate_to_next_key s) = key_usage_stats s"
  "api_keys (rotate_to_next_key s) = api_keys s"
  by (simp_all add: rotate_to_next_key_def)

lemma get_key_loop_invariant:
  assumes "get_key_loop now i a s = (r, s')" and "P now s"
    and rot: "\<And>now s. P now s \<Longrightarrow> P now (rotate_to_next_key s)"
    and ex: "\<And>now s key stats T. P now s \<Longrightarrow> key_usage_stats s key = Some stats \<Longrightarrow>
        key_cooldowns s key = Some T \<Longrightarrow> \<not> now < T \<Longrightarrow> P now (expire_key key stats s)"
  shows "P now s'"
  using assms(1,2)
proof (induction now i a s rule: get_key_loop.induct)
  case (1 now initial_index attempts s)
  from "1.prems" "1.IH" rot show ?case
    apply (subst (asm) get_key_loop.simps)
    apply (auto simp: Let_def split: if_splits option.splits sum.splits dest!: all_checked_state)
    apply (rule ex [unfolded expire_key_def], assumption+)
    done
qed

lemma durations_ordered: "seconds 30 \<le> minutes 5" "minutes 5 \<le> hours 1" "seconds 30 \<le> hours 1"
  "minutes 5 < hours 1" "seconds 30 < hours 1" "0 < seconds 30"
  by (simp_all add: seconds_def minutes_def hours_def)

lemma cooldowns_boundedI:
  assumes "\<And>key T stats. key_cooldowns s key = Some T \<Longrightarrow> key_usage_stats s key = Some stats
     \<Longrightarrow> T \<le> now + cooldown_bound stats"
  shows "cooldowns_bounded now s"
  using assms unfolding cooldowns_bounded_def by blast

lemma cooldowns_boundedD:
  assumes "cooldowns_bounded now s" and "key_cooldowns s key = Some T"
    and "key_usage_stats s key = Some stats"
  shows "T \<le> now + cooldown_bound stats"
  using assms unfolding cooldowns_bounded_def by blast

lemma cooldown_bound_ge: "seconds 30 \<le> cooldown_bound stats"
  using durations_ordered by (simp add: cooldown_bound_def)

lemma cooldown_bound_le: "cooldown_bound stats \<le> hours 1"
  using durations_ordered by (simp add: cooldown_bound_def)

lemma rotate_bounded: "cooldowns_bounded now s \<Longrightarrow> cooldowns_bounded now (rotate_to_next_key s)"
  by (simp add: cooldowns_bounded_def)

lemma expire_bounded:
  assumes "cooldowns_bounded now s"
  shows "cooldowns_bounded now (expire_key key stats s)"
proof (rule cooldowns_boundedI)
  fix k T st
  assume c: "key_cooldowns (expire_key key stats s) k = Some T"
    and u: "key_usage_stats (expire_key key stats s) k = Some st"
  from c have ne: "k \<noteq> key" by (auto simp: expire_key_def split: if_splits)
  with c u have "key_cooldowns s k = Some T" "key_usage_stats s k = Some st"
    by (simp_all add: expire_key_def)
  with assms show "T \<le> now + cooldown_bound st" by (rule cooldowns_boundedD)
qed

lemma get_next_bounded:
  assumes "cooldowns_bounded now s" and "get_next_available_key now s = (r, s')"
  shows "cooldowns_bounded now s'"
proof (rule get_key_loop_invariant [where P = cooldowns_bounded])
  show "get_key_loop now (current_key_index s) 0 s = (r, s')"
    using assms(2) by (simp add: get_next_available_key_def)
  show "cooldowns_bounded now s" by fact
  show "cooldowns_bounded now (rotate_to_next_key s)" if "cooldowns_bounded now s" for now s
    using that by (rule rotate_bounded)
  show "cooldowns_bounded now (expire_key key stats s)" if "cooldowns_bounded now s" for now s key stats
    using that by (rule expire_bounded)
qed

lemma report_bounded:
  assumes "cooldowns_bounded now s" and d: "d \<le> cooldown_bound stats'"
  shows "cooldowns_bounded now
           (s\<lparr>key_usage_stats := (key_usage_stats s)(key \<mapsto> stats'),
              key_cooldowns := (key_cooldowns s)(key \<mapsto> now + d)\<rparr>)"
proof (rule cooldowns_boundedI)
  fix k T st
  assume c: "key_cooldowns (s\<lparr>key_usage_stats := (key_usage_stats s)(key \<mapsto> stats'),
              key_cooldowns := (key_cooldowns s)(key \<mapsto> now + d)\<rparr>) k = Some T"
    and u: "key_usage_stats (s\<lparr>key_usage_stats := (key_usage_stats s)(key \<mapsto> stats'),
              key_cooldowns := (key_cooldowns s)(key \<mapsto> now + d)\<rparr>) k = Some st"
  show "T \<le> now + cooldown_bound st"
  proof (cases "k = key")
    case True
    with c u have "T = now + d" "st = stats'" by simp_all
    with d show ?thesis by simp
  next
    case False
    with c u have "key_cooldowns s k = Some T" "key_usage_stats s k = Some st" by simp_all
    with assms(1) show ?thesis by (rule cooldowns_boundedD)
  qed
qed

lemma handle_api_error_bounded:
  assumes "cooldowns_bounded now s" and "handle_api_error now key e s = Inr s'"
  shows "cooldowns_bounded now s'"
proof (cases "key_usage_stats s key")
  case None
  with assms(2) show ?thesis by (simp add: handle_api_error_def)
next
  case (Some stats0)
  show ?thesis
  proof (cases "is_payment_error (lower (error_str e))")
    case True
    with assms(2) Some have "s' = s\<lparr>key_usage_stats := (key_usage_stats s)(key \<mapsto>
             stats0\<lparr>errors := errors stats0 + 1, credits_exhausted := True\<rparr>),
           key_cooldowns := (key_cooldowns s)(key \<mapsto> now + hours 1)\<rparr>"
      by (simp add: handle_api_error_def Let_def)
    moreover have "hours 1 \<le> cooldown_bound (stats0\<lparr>errors := errors stats0 + 1, credits_exhausted := True\<rparr>)"
      by (simp add: cooldown_bound_def)
    ultimately show ?thesis using assms(1) by (simp only: report_bounded)
  next
    case np: False
    show ?thesis
    proof (cases "is_rate_limit_error (lower (error_str e))")
      case True
      with assms(2) Some np have "s' = s\<lparr>key_usage_stats := (key_usage_stats s)(key \<mapsto>
             stats0\<lparr>errors := errors stats0 + 1, rate_limited := True\<rparr>),
           key_cooldowns := (key_cooldowns s)(key \<mapsto> now + minutes 5)\<rparr>"
        by (simp add: handle_api_error_def Let_def)
      moreover have "minutes 5 \<le> cooldown_bound (stats0\<lparr>errors := errors stats0 + 1, rate_limited := True\<rparr>)"
        using durations_ordered by (simp add: cooldown_bound_def)
      ultimately show ?thesis using assms(1) by (simp only: report_bounded)
    next
      case False
      with assms(2) Some np have "s' = s\<lparr>key_usage_stats := (key_usage_stats s)(key \<mapsto>
             stats0\<lparr>errors := errors stats0 + 1\<rparr>),
           key_cooldowns := (key_cooldowns s)(key \<mapsto> now + seconds 30)\<rparr>"
        by (simp add: handle_api_error_def Let_def)
      moreover have "seconds 30 \<le> cooldown_bound (stats0\<lparr>errors := errors stats0 + 1\<rparr>)"
        by (rule cooldown_bound_ge)
      ultimately show ?thesis using assms(1) by (simp only: report_bounded)
    qed
  qed
qed


lemma reset_key_status_bounded:
  assumes "cooldowns_bounded now s" and "reset_key_status key_index s = Inr s'"
  shows "cooldowns_bounded now s'"
proof (cases key_index)
  case None
  with assms(2) have "key_cooldowns s' = Map.empty"
    by (auto simp: reset_key_status_def split: sum.splits)
  then show ?thesis by (simp add: cooldowns_bounded_def)
next
  case (Some i)
  show ?thesis
  proof (cases "0 \<le> i \<and> i < int (length (api_keys s))")
    case False
    with assms Some show ?thesis by (simp add: reset_key_status_def)
  next
    case True
    with assms(2) Some obtain stats where
      "key_usage_stats s (api_keys s ! nat i) = Some stats"
      and "s' = expire_key (api_keys s ! nat i) stats s"
      by (auto simp: reset_key_status_def Let_def expire_key_def clear_flags_def
          split: option.splits)
    with assms(1) show ?thesis by (simp add: expire_bounded)
  qed
qed

lemma or_init_bounded:
  assumes "or_init getenv = Inr s"
  shows "cooldowns_bounded now s"
proof -
  from assms have "key_cooldowns s = Map.empty"
    by (auto simp: or_init_def split: sum.splits)
  then show ?thesis by (simp add: cooldowns_bounded_def)
qed

lemma tick_bounded:
  assumes "cooldowns_bounded now s" and "now \<le> later"
  shows "cooldowns_bounded later s"
proof (rule cooldowns_boundedI)
  fix key T stats
  assume "key_cooldowns s key = Some T" "key_usage_stats s key = Some stats"
  with assms(1) have "T \<le> now + cooldown_bound stats" by (rule cooldowns_boundedD)
  with assms(2) show "T \<le> later + cooldown_bound stats" by simp
qed

lemma used_bounded:
  assumes "cooldowns_bounded now s" and "key_usage_stats s key = Some stats"
  shows "cooldowns_bounded now (s\<lparr>key_usage_stats := (key_usage_stats s)(key \<mapsto>
           stats\<lparr>requests := requests stats + 1, stat_last_used := Some now\<rparr>)\<rparr>)"
proof (rule cooldowns_boundedI)
  fix k T st
  assume c: "key_cooldowns (s\<lparr>key_usage_stats := (key_usage_stats s)(key \<mapsto>
           stats\<lparr>requests := requests stats + 1, stat_last_used := Some now\<rparr>)\<rparr>) k = Some T"
    and u: "key_usage_stats (s\<lparr>key_usage_stats := (key_usage_stats s)(key \<mapsto>
           stats\<lparr>requests := requests stats + 1, stat_last_used := Some now\<rparr>)\<rparr>) k = Some st"
  from c have c': "key_cooldowns s k = Some T" by simp
  show "T \<le> now + cooldown_bound st"
  proof (cases "k = key")
    case True
    with u have "cooldown_bound st = cooldown_bound stats"
      by (auto simp: cooldown_bound_def)
    moreover from assms c' True have "T \<le> now + cooldown_bound stats"
      by (simp add: cooldowns_boundedD)
    ultimately show ?thesis by simp
  next
    case False
    with u have "key_usage_stats s k = Some st" by simp
    with assms(1) c' show ?thesis by (rule cooldowns_boundedD)
  qed
qed

lemma reachable_bounded: "or_reachable now s \<Longrightarrow> cooldowns_bounded now s"
proof (induction rule: or_reachable.induct)
  case (reach_init getenv s now)
  then show ?case by (rule or_init_bounded)
next
  case (reach_tick now s later)
  then show ?case by (simp add: tick_bounded)
next
  case (reach_select now s r s')
  then show ?case by (simp add: get_next_bounded)
next
  case (reach_used now s key stats)
  then show ?case by (simp only: used_bounded)
next
  case (reach_rotate now s)
  then show ?case by (simp add: rotate_bounded)
next
  case (reach_error now s key e s')
  then show ?case by (simp add: handle_api_error_bounded)
next
  case (reach_reset now s key_index s')
  then show ?case by (simp add: reset_key_status_bounded)
qed

section \<open>The selection loop on well-formed states\<close>

lemma or_invD:
  assumes "or_inv s"
  shows "api_keys s \<noteq> []" and "current_key_index s < length (api_keys s)"
    and "dom (key_usage_stats s) = set (api_keys s)"
    and "\<And>key stats. key_usage_stats s key = Some stats \<Longrightarrow> flagged stats
           \<Longrightarrow> key_cooldowns s key \<noteq> None"
  using assms unfolding or_inv_def by blast+

lemma or_inv_cursor_stats:
  assumes "or_inv s"
  shows "\<exists>stats. key_usage_stats s (api_keys s ! current_key_index s) = Some stats"
proof -
  from assms have "api_keys s ! current_key_index s \<in> set (api_keys s)"
    by (simp add: or_invD(2))
  with assms have "api_keys s ! current_key_index s \<in> dom (key_usage_stats s)"
    by (simp add: or_invD(3))
  then show ?thesis by blast
qed

lemma rotate_inv:
  assumes "or_inv s"
  shows "or_inv (rotate_to_next_key s)"
proof -
  from assms have "0 < length (api_keys s)" by (simp add: or_invD(1))
  then have "(current_key_index s + 1) mod length (api_keys s) < length (api_keys s)"
    by simp
  with assms show ?thesis
    by (simp add: or_inv_def rotate_to_next_key_def)
qed

lemma expire_inv:
  assumes "or_inv s" and "key_usage_stats s key = Some stats"
  shows "or_inv (expire_key key stats s)"
proof -
  from assms(2) have "key \<in> dom (key_usage_stats s)" by blast
  then have d: "insert key (dom (key_usage_stats s)) = dom (key_usage_stats s)" by blast
  have f: "key_cooldowns (expire_key key stats s) k \<noteq> None"
    if "key_usage_stats (expire_key key stats s) k = Some st" and "flagged st" for k st
  proof (cases "k = key")
    case True
    with that show ?thesis by (auto simp: expire_key_def flagged_def)
  next
    case False
    with that assms(1) show ?thesis by (simp add: expire_key_def or_invD(4))
  qed
  from assms(1) d have "api_keys (expire_key key stats s) \<noteq> []"
    and "current_key_index (expire_key key stats s) < length (api_keys (expire_key key stats s))"
    and "dom (key_usage_stats (expire_key key stats s)) = set (api_keys (expire_key key stats s))"
    by (simp_all add: expire_key_def or_invD)
  with f show ?thesis unfolding or_inv_def by blast
qed

lemma get_next_inv:
  assumes "or_inv s" and "get_next_available_key now s = (r, s')"
  shows "or_inv s'"
proof (rule get_key_loop_invariant [where P = "\<lambda>now. or_inv"])
  show "get_key_loop now (current_key_index s) 0 s = (r, s')"
    using assms(2) by (simp add: get_next_available_key_def)
  show "or_inv s" by fact
  show "or_inv (rotate_to_next_key s)" if "or_inv s" for s
    using that by (rule rotate_inv)
  show "or_inv (expire_key key stats s)" if "or_inv s" "key_usage_stats s key = Some stats"
    for s key stats
    using that by (rule expire_inv)
qed


lemma handle_api_error_inv:
  assumes "or_inv s" and "handle_api_error now key e s = Inr s'"
  shows "or_inv s'"
proof (cases "key_usage_stats s key")
  case None
  with assms(2) show ?thesis by (simp add: handle_api_error_def)
next
  case (Some stats0)
  then have "key \<in> dom (key_usage_stats s)" by blast
  then have d: "insert key (dom (key_usage_stats s)) = dom (key_usage_stats s)" by blast
  from assms(2) Some obtain stats' T where
    s': "s' = s\<lparr>key_usage_stats := (key_usage_stats s)(key \<mapsto> stats'),
                key_cooldowns := (key_cooldowns s)(key \<mapsto> T)\<rparr>"
    by (auto simp: handle_api_error_def Let_def split: if_splits)
  have f: "key_cooldowns s' k \<noteq> None" if "key_usage_stats s' k = Some st" and "flagged st" for k st
  proof (cases "k = key")
    case True
    then show ?thesis by (simp add: s')
  next
    case False
    with that assms(1) show ?thesis by (simp add: s' or_invD(4))
  qed
  from assms(1) d have "api_keys s' \<noteq> []"
    and "current_key_index s' < length (api_keys s')"
    and "dom (key_usage_stats s') = set (api_keys s')"
    by (simp_all add: s' or_invD)
  with f show ?thesis unfolding or_inv_def by blast
qed

lemma used_inv:
  assumes "or_inv s" and "key_usage_stats s key = Some stats"
  shows "or_inv (s\<lparr>key_usage_stats := (key_usage_stats s)(key \<mapsto>
           stats\<lparr>requests := requests stats + 1, stat_last_used := Some now\<rparr>)\<rparr>)"
    (is "or_inv ?s'")
proof -
  from assms(2) have "key \<in> dom (key_usage_stats s)" by blast
  then have d: "insert key (dom (key_usage_stats s)) = dom (key_usage_stats s)" by blast
  have f: "key_cooldowns ?s' k \<noteq> None" if "key_usage_stats ?s' k = Some st" and "flagged st" for k st
  proof (cases "k = key")
    case True
    with that have "flagged stats" by (auto simp: flagged_def)
    with assms True show ?thesis by (simp add: or_invD(4))
  next
    case False
    with that assms(1) show ?thesis by (simp add: or_invD(4))
  qed
  from assms(1) d have "api_keys ?s' \<noteq> []"
    and "current_key_index ?s' < length (api_keys ?s')"
    and "dom (key_usage_stats ?s') = set (api_keys ?s')"
    by (simp_all add: or_invD)
  with f show ?thesis unfolding or_inv_def by blast
qed

lemma clear_all_flags_result:
  assumes "clear_all_flags usage ks = Inr usage'"
  shows "dom usage' = dom usage
         \<and> (\<forall>k st. usage' k = Some st \<and> flagged st \<longrightarrow> k \<notin> set ks \<and> usage k = Some st)"
  using assms
proof (induction usage ks rule: clear_all_flags.induct)
  case (1 usage)
  then show ?case by simp
next
  case (2 usage key ks)
  from "2.prems" obtain stats where u: "usage key = Some stats"
    and rest: "clear_all_flags (usage(key \<mapsto> clear_flags stats)) ks = Inr usage'"
    by (auto split: option.splits)
  from "2.IH" [OF u rest] have d: "dom usage' = dom (usage(key \<mapsto> clear_flags stats))"
    and f: "\<And>k st. usage' k = Some st \<Longrightarrow> flagged st \<Longrightarrow>
              k \<notin> set ks \<and> (usage(key \<mapsto> clear_flags stats)) k = Some st"
    by blast+
  from u d have "dom usage' = dom usage" by auto
  moreover have "k \<notin> set (key # ks) \<and> usage k = Some st"
    if "usage' k = Some st" and "flagged st" for k st
  proof -
    from f [OF that] have a: "k \<notin> set ks" and b: "(usage(key \<mapsto> clear_flags stats)) k = Some st"
      by simp_all
    have "k \<noteq> key"
    proof
      assume "k = key"
      with b have "st = clear_flags stats" by simp
      with that(2) show False by (simp add: flagged_def clear_flags_def)
    qed
    with a b show ?thesis by simp
  qed
  ultimately show ?case by blast
qed

lemma reset_key_status_inv:
  assumes "or_inv s" and "reset_key_status key_index s = Inr s'"
  shows "or_inv s'"
proof (cases key_index)
  case None
  with assms(2) obtain usage where c: "clear_all_flags (key_usage_stats s) (api_keys s) = Inr usage"
    and s': "s' = s\<lparr>key_usage_stats := usage, key_cooldowns := Map.empty\<rparr>"
    by (auto simp: reset_key_status_def split: sum.splits)
  from clear_all_flags_result [OF c] have d: "dom usage = dom (key_usage_stats s)"
    and f: "\<And>k st. usage k = Some st \<Longrightarrow> flagged st \<Longrightarrow>
              k \<notin> set (api_keys s) \<and> key_usage_stats s k = Some st"
    by blast+
  have nf: "\<not> flagged st" if "usage k = Some st" for k st
  proof
    assume "flagged st"
    from f [OF that this] have "k \<notin> set (api_keys s)" and "k \<in> dom (key_usage_stats s)"
      by auto
    with assms(1) show False by (simp add: or_invD(3))
  qed
  from assms(1) d have "api_keys s' \<noteq> []"
    and "current_key_index s' < length (api_keys s')"
    and "dom (key_usage_stats s') = set (api_keys s')"
    by (simp_all add: s' or_invD)
  moreover have "\<forall>key stats. key_usage_stats s' key = Some stats \<and> flagged stats
           \<longrightarrow> key_cooldowns s' key \<noteq> None"
    using nf by (auto simp: s')
  ultimately show ?thesis unfolding or_inv_def by blast
next
  case (Some i)
  show ?thesis
  proof (cases "0 \<le> i \<and> i < int (length (api_keys s))")
    case False
    with assms Some show ?thesis by (simp add: reset_key_status_def)
  next
    case True
    with assms(2) Some obtain stats where
      "key_usage_stats s (api_keys s ! nat i) = Some stats"
      and "s' = expire_key (api_keys s ! nat i) stats s"
      by (auto simp: reset_key_status_def Let_def expire_key_def clear_flags_def
          split: option.splits)
    with assms(1) show ?thesis by (simp add: expire_inv)
  qed
qed

lemma or_init_inv:
  assumes "or_init getenv = Inr s"
  shows "or_inv s"
proof -
  from assms obtain keys where k: "load_api_keys getenv = Inr keys"
    and s: "s = \<lparr>api_keys = keys, current_key_index = 0,
          key_usage_stats = (\<lambda>k. if k \<in> set keys then Some fresh_stats else None),
          key_cooldowns = Map.empty\<rparr>"
    by (auto simp: or_init_def split: sum.splits)
  from k have ne: "keys \<noteq> []"
    by (auto simp: load_api_keys_def Let_def split: if_splits)
  have "dom (\<lambda>k. if k \<in> set keys then Some fresh_stats else None) = set keys"
    by (auto simp: dom_def)
  moreover have "\<not> flagged fresh_stats" by (simp add: flagged_def fresh_stats_def)
  ultimately show ?thesis
    using ne by (auto simp: or_inv_def s split: if_splits)
qed

lemma reachable_inv: "or_reachable now s \<Longrightarrow> or_inv s"
proof (induction rule: or_reachable.induct)
  case (reach_init getenv s now)
  then show ?case by (rule or_init_inv)
next
  case (reach_tick now s later)
  then show ?case by simp
next
  case (reach_select now s r s')
  then show ?case by (simp add: get_next_inv)
next
  case (reach_used now s key stats)
  then show ?case by (simp only: used_inv)
next
  case (reach_rotate now s)
  then show ?case by (simp add: rotate_inv)
next
  case (reach_error now s key e s')
  then show ?case by (simp add: handle_api_error_inv)
next
  case (reach_reset now s key_index s')
  then show ?case by (simp add: reset_key_status_inv)
qed


lemma min_errors_from_defined:
  assumes "\<forall>k \<in> set ks. usage k \<noteq> None"
  shows "\<exists>key. min_errors_from usage best e ks = Inr key \<and> key \<in> insert best (set ks)"
  using assms
proof (induction ks arbitrary: best e)
  case Nil
  then show ?case by simp
next
  case (Cons k ks)
  from Cons.prems obtain stats where u: "usage k = Some stats" by auto
  from Cons.prems have rest: "\<forall>k \<in> set ks. usage k \<noteq> None" by simp
  show ?case
  proof (cases "errors stats < e")
    case True
    from Cons.IH [OF rest, of k "errors stats"] u True show ?thesis by auto
  next
    case False
    from Cons.IH [OF rest, of best e] u False show ?thesis by auto
  qed
qed

lemma best_key_defined:
  assumes "or_inv s"
  shows "\<exists>key. best_key s = Inr key \<and> key \<in> set (api_keys s)"
proof -
  from assms obtain k ks where keys: "api_keys s = k # ks"
    by (cases "api_keys s") (auto simp: or_invD(1))
  from assms have all: "\<forall>k \<in> set (api_keys s). key_usage_stats s k \<noteq> None"
    using or_invD(3) [OF assms] by blast
  with keys obtain stats where u: "key_usage_stats s k = Some stats" by auto
  from all keys have "\<forall>k \<in> set ks. key_usage_stats s k \<noteq> None" by simp
  from min_errors_from_defined [OF this, of k "errors stats"] keys u show ?thesis
    by (auto simp: best_key_def)
qed

lemma loop_done:
  assumes "\<not> a < length (api_keys s)"
  shows "get_key_loop now i a s = (case best_key s of Inl e \<Rightarrow> (Inl e, s) | Inr k \<Rightarrow> (Inr k, s))"
  using assms by (subst get_key_loop.simps) simp

lemma loop_cooling:
  assumes "a < length (api_keys s)" and "current_key_index s < length (api_keys s)"
    and "key_usage_stats s (api_keys s ! current_key_index s) = Some stats"
    and "cooling now s (api_keys s ! current_key_index s)"
  shows "get_key_loop now i a s = get_key_loop now i (a + 1) (rotate_to_next_key s)"
  using assms by (subst get_key_loop.simps) (simp add: cooling_def Let_def)

lemma loop_fresh:
  assumes "a < length (api_keys s)" and "current_key_index s < length (api_keys s)"
    and "key_usage_stats s (api_keys s ! current_key_index s) = Some stats"
    and "key_cooldowns s (api_keys s ! current_key_index s) = None"
    and "\<not> flagged stats"
  shows "get_key_loop now i a s = (Inr (api_keys s ! current_key_index s), s)"
  using assms by (subst get_key_loop.simps) (simp add: flagged_def Let_def)

lemma loop_expired:
  assumes "a < length (api_keys s)" and "current_key_index s < length (api_keys s)"
    and "key_usage_stats s (api_keys s ! current_key_index s) = Some stats"
    and "key_cooldowns s (api_keys s ! current_key_index s) = Some T" and "\<not> now < T"
  shows "get_key_loop now i a s
     = (Inr (api_keys s ! current_key_index s),
        expire_key (api_keys s ! current_key_index s) stats s)"
  using assms by (subst get_key_loop.simps) (simp add: expire_key_def Let_def)


lemma cooling_rotate [simp]: "cooling now (rotate_to_next_key s) key = cooling now s key"
  by (simp add: cooling_def)

text \<open>
  What the loop returns from a well-formed state: a key that is not in cooldown, found
  at the cursor, or else every position still to be scanned holds a key in cooldown.
\<close>

lemma get_key_loop_selects:
  assumes "or_inv s"
  shows "\<exists>key s'. get_key_loop now i a s = (Inr key, s') \<and> key \<in> set (api_keys s)
           \<and> ((\<not> cooling now s key \<and> key_cooldowns s' key = None
                 \<and> api_keys s' ! current_key_index s' = key)
                \<or> (\<forall>j < length (api_keys s) - a.
                      cooling now s
                        (api_keys s ! ((current_key_index s + j) mod length (api_keys s)))))"
  using assms
proof (induction "length (api_keys s) - a" arbitrary: a s)
  case 0
  then have "\<not> a < length (api_keys s)" by simp
  with best_key_defined [OF "0.prems"] "0.hyps" show ?case
    by (auto simp: loop_done)
next
  case (Suc m)
  let ?n = "length (api_keys s)"
  let ?key = "api_keys s ! current_key_index s"
  from Suc.hyps(2) have a: "a < ?n" by simp
  from Suc.prems have c: "current_key_index s < ?n" by (rule or_invD(2))
  then have mem: "?key \<in> set (api_keys s)" by simp
  from or_inv_cursor_stats [OF Suc.prems] obtain stats where
    u: "key_usage_stats s ?key = Some stats" by blast
  show ?case
  proof (cases "cooling now s ?key")
    case True
    let ?r = "rotate_to_next_key s"
    have inv: "or_inv ?r" using Suc.prems by (rule rotate_inv)
    have m: "m = length (api_keys ?r) - (a + 1)" using Suc.hyps(2) by simp
    from Suc.hyps(1) [OF m inv] obtain key s' where
      res: "get_key_loop now i (a + 1) ?r = (Inr key, s')" and kmem: "key \<in> set (api_keys s)"
      and alt: "(\<not> cooling now s key \<and> key_cooldowns s' key = None
                 \<and> api_keys s' ! current_key_index s' = key)
                \<or> (\<forall>j < ?n - (a + 1).
                      cooling now s (api_keys s ! ((current_key_index ?r + j) mod ?n)))"
      by auto
    from a c u True have eq: "get_key_loop now i a s = get_key_loop now i (a + 1) ?r"
      by (rule loop_cooling)
    from alt show ?thesis
    proof
      assume "\<not> cooling now s key \<and> key_cooldowns s' key = None
                 \<and> api_keys s' ! current_key_index s' = key"
      with eq res kmem show ?thesis by simp
    next
      assume rest: "\<forall>j < ?n - (a + 1).
                      cooling now s (api_keys s ! ((current_key_index ?r + j) mod ?n))"
      have "cooling now s (api_keys s ! ((current_key_index s + j) mod ?n))" if "j < ?n - a" for j
      proof (cases j)
        case 0
        with True c show ?thesis by simp
      next
        case (Suc j')
        with that have "j' < ?n - (a + 1)" by simp
        with rest have "cooling now s (api_keys s ! ((current_key_index ?r + j') mod ?n))"
          by blast
        moreover have "(current_key_index ?r + j') mod ?n = (current_key_index s + j) mod ?n"
          by (simp add: rotate_to_next_key_def Suc mod_add_left_eq)
        ultimately show ?thesis by simp
      qed
      with eq res kmem show ?thesis by simp
    qed
  next
    case False
    show ?thesis
    proof (cases "key_cooldowns s ?key")
      case None
      have "\<not> flagged stats"
        using or_invD(4) [OF Suc.prems u] None by blast
      with a c u None have "get_key_loop now i a s = (Inr ?key, s)"
        by (rule loop_fresh)
      with mem False None show ?thesis by simp
    next
      case (Some T)
      with False have "\<not> now < T" by (simp add: cooling_def)
      with a c u Some have "get_key_loop now i a s = (Inr ?key, expire_key ?key stats s)"
        by (rule loop_expired)
      moreover have "key_cooldowns (expire_key ?key stats s) ?key = None"
        and "api_keys (expire_key ?key stats s) ! current_key_index (expire_key ?key stats s) = ?key"
        by (simp_all add: expire_key_def)
      ultimately show ?thesis using mem False by simp
    qed
  qed
qed

lemma every_position_scanned:
  assumes "c < n" and "m < n"
  shows "\<exists>j < n. (c + j) mod n = (m::nat)"
proof (intro exI conjI)
  show "(m + n - c) mod n < n" using assms by simp
  have "(c + (m + n - c) mod n) mod n = (c + (m + n - c)) mod n"
    by (simp add: mod_add_right_eq)
  also have "\<dots> = (m + n) mod n" using assms by simp
  also have "\<dots> = m" using assms by simp
  finally show "(c + (m + n - c) mod n) mod n = m" .
qed

lemma get_next_keeps_keys:
  assumes "get_next_available_key now s = (r, s')"
  shows "api_keys s' = api_keys s"
proof (rule get_key_loop_invariant [where P = "\<lambda>now u. api_keys u = api_keys s"])
  show "get_key_loop now (current_key_index s) 0 s = (r, s')"
    using assms by (simp add: get_next_available_key_def)
qed (simp_all add: expire_key_def)

lemma get_next_selects:
  assumes "or_inv s"
  shows "\<exists>key s'. get_next_available_key now s = (Inr key, s') \<and> key \<in> set (api_keys s)
           \<and> ((\<not> cooling now s key \<and> key_cooldowns s' key = None
                 \<and> api_keys s' ! current_key_index s' = key)
                \<or> (\<forall>k \<in> set (api_keys s). cooling now s k))"
proof -
  let ?n = "length (api_keys s)"
  from get_key_loop_selects [OF assms, of now "current_key_index s" 0]
  obtain key s' where sel: "get_next_available_key now s = (Inr key, s')"
    and mem: "key \<in> set (api_keys s)"
    and alt: "(\<not> cooling now s key \<and> key_cooldowns s' key = None
                 \<and> api_keys s' ! current_key_index s' = key)
                \<or> (\<forall>j < ?n. cooling now s (api_keys s ! ((current_key_index s + j) mod ?n)))"
    by (auto simp: get_next_available_key_def)
  have "\<forall>k \<in> set (api_keys s). cooling now s k"
    if all: "\<forall>j < ?n. cooling now s (api_keys s ! ((current_key_index s + j) mod ?n))"
  proof
    fix k assume "k \<in> set (api_keys s)"
    then obtain m where m: "m < ?n" and k: "k = api_keys s ! m"
      by (auto simp: in_set_conv_nth)
    from assms have "current_key_index s < ?n" by (rule or_invD(2))
    from every_position_scanned [OF this m] obtain j where
      "j < ?n" and "(current_key_index s + j) mod ?n = m" by blast
    with all k show "cooling now s k" by auto
  qed
  with sel mem alt show ?thesis by blast
qed

lemma on_exception_no_answer: "on_exception now e k s \<noteq> Done (Inr r) s'"
  by (cases k; cases "handle_api_error now (the k) e s") (simp_all add: on_exception_def)

lemma successful_attempt_rotates:
  assumes "or_reachable (select_time io) t" and "run_attempt io prev t = Done (Inr r) t'"
  shows "\<exists>key t1. get_next_available_key (select_time io) t = (Inr key, t1)
           \<and> current_key_index t' = (current_key_index t1 + 1) mod length (api_keys t1)
           \<and> (cooling (select_time io) t key \<or> api_keys t1 ! current_key_index t1 = key)"
proof -
  from assms(1) have inv: "or_inv t" by (rule reachable_inv)
  from get_next_selects [OF inv, of "select_time io"]
  obtain key t1 where sel: "get_next_available_key (select_time io) t = (Inr key, t1)"
    and mem: "key \<in> set (api_keys t)"
    and alt: "cooling (select_time io) t key \<or> api_keys t1 ! current_key_index t1 = key"
    by blast
  from inv sel have inv1: "or_inv t1" by (rule get_next_inv)
  from sel have "api_keys t1 = api_keys t" by (rule get_next_keeps_keys)
  with mem have "key \<in> dom (key_usage_stats t1)"
    by (simp add: or_invD(3) [OF inv1])
  then obtain stats where u: "key_usage_stats t1 key = Some stats"
    by (auto simp: dom_def)
  define t2 where "t2 = t1\<lparr>key_usage_stats := (key_usage_stats t1)(key \<mapsto>
                           stats\<lparr>requests := requests stats + 1,
                                 stat_last_used := Some (select_time io)\<rparr>)\<rparr>"
  have run: "run_attempt io prev t =
      (case outcome io of Returns r \<Rightarrow> Done (Inr r) (rotate_to_next_key t2)
       | Raises e \<Rightarrow> on_exception (failure_time io) e (Some key) t2)"
    unfolding t2_def using sel u by (simp add: run_attempt_def Let_def)
  have "t' = rotate_to_next_key t2"
  proof (cases "outcome io")
    case (Returns r')
    with run assms(2) show ?thesis by simp
  next
    case (Raises e)
    with run assms(2) have "on_exception (failure_time io) e (Some key) t2 = Done (Inr r) t'"
      by simp
    then show ?thesis by (simp add: on_exception_no_answer)
  qed
  then have "current_key_index t' = (current_key_index t1 + 1) mod length (api_keys t1)"
    by (simp add: rotate_to_next_key_def t2_def)
  with sel alt show ?thesis by blast
qed

section \<open>The examples are states of the program\<close>

lemma class_429: "\<not> is_payment_error (lower (error_str error_429))"
  "is_rate_limit_error (lower (error_str error_429))"
  by (simp_all add: error_429_def is_payment_error_def is_rate_limit_error_def lower_def lower_char_def)

lemma class_402: "is_payment_error (lower (error_str error_402))"
  by (simp add: error_402_def is_payment_error_def lower_def lower_char_def)

lemma class_500: "\<not> is_payment_error (lower (error_str error_500))"
  "\<not> is_rate_limit_error (lower (error_str error_500))"
  by (simp_all add: error_500_def is_payment_error_def is_rate_limit_error_def lower_def lower_char_def)

lemma class_429_credits: "is_payment_error (lower (error_str error_429_credits))"
  by (simp add: error_429_credits_def is_payment_error_def lower_def lower_char_def)

lemma status_of_examples: "is_status_402 error_402" "\<not> is_status_402 error_429"
  "\<not> is_status_402 error_500"
  by (simp_all add: error_402_def error_429_def error_500_def)

lemma one_key_init: "or_init one_key_env = Inr one_key_manager"
  by (simp add: or_init_def load_api_keys_def env_keys_def one_key_env_def truthy_def
      str_nat.simps one_key_manager_def fun_eq_iff)

lemma two_key_load: "load_api_keys two_key_env = Inr [''sk-1'', ''sk-2'']"
  by code_simp

lemma two_key_init: "or_init two_key_env = Inr two_key_manager"
  by (simp add: or_init_def two_key_load two_key_manager_def fun_eq_iff)

lemma one_key_limited: "handle_api_error 0 ''sk-1'' error_429 one_key_manager = Inr limited_manager"
  by (simp add: handle_api_error_def one_key_manager_def limited_manager_def class_429 Let_def
      fresh_stats_def fun_eq_iff)

lemma one_key_exhausted:
  "handle_api_error 0 ''sk-1'' error_402 one_key_manager = Inr exhausted_manager"
  by (simp add: handle_api_error_def one_key_manager_def exhausted_manager_def class_402 Let_def
      fresh_stats_def fun_eq_iff)

lemma limited_reachable: "or_reachable (minutes 1) limited_manager"
proof -
  have "or_reachable 0 one_key_manager"
    using one_key_init by (rule reach_init)
  then have "or_reachable 0 limited_manager"
    using one_key_limited by (rule reach_error)
  then show ?thesis
    by (rule reach_tick) (simp add: minutes_def)
qed

lemma both_limited_arises:
  "chat_attempts always_429 [0, 1] None None two_key_manager = (Inl error_429, both_limited)"
  by (simp add: run_attempt_def on_exception_def always_429_def two_key_manager_def
      get_next_available_key_def get_key_loop.simps Let_def rotate_to_next_key_def
      handle_api_error_def class_429 status_of_examples fresh_stats_def both_limited_def
      seconds_def minutes_def fun_eq_iff)

lemma two_key_first_selection:
  "get_next_available_key t two_key_manager = (Inr ''sk-1'', two_key_manager)"
  by (simp add: get_next_available_key_def get_key_loop.simps two_key_manager_def Let_def
      fresh_stats_def)

lemma str_nat_small: "str_nat (Suc 0) = ''1''" "str_nat (Suc (Suc 0)) = ''2''"
  "str_nat (Suc (Suc (Suc 0))) = ''3''"
  by code_simp+

lemma two_gemini_pool: "apis two_gemini_manager ''gemini'' = Some [gemini_1, gemini_2]"
  by (simp add: two_gemini_manager_def rm_init_def service_names_def load_pool_def
      endpoints_of_def configured_def truthy_def two_gemini_env_def gemini_1_def gemini_2_def
      str_nat_small)

lemma first_selection_result:
  "fst first_selection = Inr (Some (gemini_1\<lparr>last_used := Some 0, requests_made := 1\<rparr>))"
  by code_simp

lemma first_selection_fresh: "\<not> needs_health_check (seconds 1) ''gemini'' (snd first_selection)"
  by code_simp

lemma worn_pool: "apis worn_manager ''gemini'' = Some [gemini_1, worn_gemini_2]"
  by (simp add: worn_manager_def)

lemma gemini_unset: "\<forall>v \<in> set (service_variables ''gemini''). \<not> truthy (one_key_env v)"
  by (simp add: service_variables_def one_key_env_def truthy_def)

lemma two_key_reachable: "or_reachable t two_key_manager"
  using two_key_init by (rule reach_init)

lemma first_attempt_ok:
  "run_attempt (always_ok 0) None two_key_manager
     = Done (Inr ''ok'')
         (rotate_to_next_key (two_key_manager\<lparr>key_usage_stats :=
            (key_usage_stats two_key_manager)(''sk-1'' \<mapsto>
               fresh_stats\<lparr>requests := requests fresh_stats + 1,
                 stat_last_used := Some (select_time (always_ok 0))\<rparr>)\<rparr>))"
  by (simp add: run_attempt_def two_key_first_selection Let_def)
     (simp add: two_key_manager_def always_ok_def)

section \<open>Selection in the OpenRouter manager\<close>

text \<open>
  In every state the manager can be in, \<open>_get_next_available_key\<close> returns a key of
  the list: the exception in its loop is never raised.
\<close>

theorem selection_never_raises:
  assumes "or_reachable now s"
  shows "\<exists>key s'. get_next_available_key now s = (Inr key, s') \<and> key \<in> set (api_keys s)"
proof -
  from assms have "or_inv s" by (rule reachable_inv)
  from get_next_selects [OF this, of now] show ?thesis by blast
qed

text \<open>
  The key returned is in unexpired cooldown exactly when every key of the list is.
\<close>

theorem cooling_key_returned_iff:
  assumes "or_reachable now s" and "get_next_available_key now s = (Inr key, s')"
  shows "cooling now s key \<longleftrightarrow> (\<forall>k \<in> set (api_keys s). cooling now s k)"
proof -
  from assms(1) have "or_inv s" by (rule reachable_inv)
  from get_next_selects [OF this, of now] obtain key0 s0 where
    sel: "get_next_available_key now s = (Inr key0, s0)" and mem0: "key0 \<in> set (api_keys s)"
    and alt0: "(\<not> cooling now s key0 \<and> key_cooldowns s0 key0 = None
                 \<and> api_keys s0 ! current_key_index s0 = key0)
                \<or> (\<forall>k \<in> set (api_keys s). cooling now s k)"
    by blast
  from sel assms(2) have same: "key0 = key" by simp
  show ?thesis
  proof
    assume "cooling now s key"
    with alt0 same show "\<forall>k \<in> set (api_keys s). cooling now s k" by blast
  next
    assume "\<forall>k \<in> set (api_keys s). cooling now s k"
    with mem0 same show "cooling now s key" by blast
  qed
qed

text \<open>
  Claim C1 (selection on a pool with no usable credential signals exhaustion and never
  returns a credential). The code does otherwise: the only key of
  \<open>limited_manager\<close> is rate limited and in cooldown until minute 5, and at minute 1
  \<open>_get_next_available_key\<close> returns that key. The scan skips the key with
  \<open>continue\<close>, which also skips the test that leads to the exception, and the code
  after the loop returns the key with the fewest errors.
\<close>

theorem limited_key_is_selected:
  "api_keys limited_manager = [''sk-1'']
   \<and> key_cooldowns limited_manager ''sk-1'' = Some (minutes 5)
   \<and> minutes 1 < minutes 5
   \<and> get_next_available_key (minutes 1) limited_manager = (Inr ''sk-1'', limited_manager)"
  by (simp add: limited_manager_def get_next_available_key_def get_key_loop.simps Let_def
      minutes_def rotate_to_next_key_def best_key_def fresh_stats_def)

text \<open>
  Claim C2 (a key whose cooldown expiry lies after the current time is never returned by
  a selection). The code does otherwise: in \<open>both_limited\<close> both keys are in
  cooldown, and the selection at second 8 returns \<open>sk-1\<close>, whose cooldown runs until
  5 minutes and 1 second. \<open>both_limited_arises\<close> shows that the state is the one two
  failed attempts of a run leave behind, so the third attempt of that run calls the
  provider with a key in cooldown.
\<close>

theorem cooling_key_is_returned:
  "key_cooldowns both_limited ''sk-1'' = Some (seconds 1 + minutes 5)
   \<and> seconds 8 < seconds 1 + minutes 5
   \<and> fst (get_next_available_key (seconds 8) both_limited) = Inr ''sk-1''"
  by (simp add: both_limited_def get_next_available_key_def get_key_loop.simps Let_def
      rotate_to_next_key_def best_key_def seconds_def minutes_def)


section \<open>Retries\<close>

text \<open>
  Claim C8 as stated (a failure classified as payment-required is propagated at once,
  without another attempt) fails: the handler classifies by the text of the error,
  the retry loop aborts on the status code. The first call of \<open>credits_then_ok\<close>
  fails with a status 429 that the handler files under payment; the run goes on to a
  second attempt with the other key and returns its answer.
\<close>

theorem payment_class_is_retried:
  "is_payment_error (lower (error_str error_429_credits))
   \<and> fst (chat_completion credits_then_ok two_key_manager) = Inr ''ok''
   \<and> map_option requests (key_usage_stats (snd (chat_completion credits_then_ok two_key_manager)) ''sk-2'')
       = Some 1"
  by code_simp

lemma handle_api_error_succeeds:
  assumes "key_usage_stats s key = Some stats"
  shows "\<exists>s'. handle_api_error now key e s = Inr s'"
  using assms by (simp add: handle_api_error_def Let_def)

text \<open>
  Claim C8, amended: when the call of an attempt raises, the failure is handled (error
  count and cooldown) and then the run ends at once with that error exactly when it is
  an API status error with status code 402; every other failure goes on to the
  remaining attempts, and after the last attempt the last error is raised. The loop
  runs \<open>max_retries = 3\<close> attempts.
\<close>

theorem only_status_402_aborts:
  assumes "get_next_available_key (select_time (world a)) s = (Inr key, s1)"
    and "key_usage_stats s1 key = Some stats"
    and "outcome (world a) = Raises e"
  shows "\<exists>s3. handle_api_error (failure_time (world a)) key e
                (s1\<lparr>key_usage_stats := (key_usage_stats s1)(key \<mapsto>
                      stats\<lparr>requests := requests stats + 1,
                            stat_last_used := Some (select_time (world a))\<rparr>)\<rparr>) = Inr s3
           \<and> chat_attempts world (a # rest) prev_key last_error s =
               (if is_status_402 e then (Inl e, s3)
                else chat_attempts world rest (Some key) (Some e) s3)
           \<and> chat_attempts world [] (Some key) (Some e) s3 = (Inl e, s3)"
proof -
  define s2 where "s2 = s1\<lparr>key_usage_stats := (key_usage_stats s1)(key \<mapsto>
                      stats\<lparr>requests := requests stats + 1,
                            stat_last_used := Some (select_time (world a))\<rparr>)\<rparr>"
  have "key_usage_stats s2 key = Some (stats\<lparr>requests := requests stats + 1,
                            stat_last_used := Some (select_time (world a))\<rparr>)"
    by (simp add: s2_def)
  then obtain s3 where s3: "handle_api_error (failure_time (world a)) key e s2 = Inr s3"
    using handle_api_error_succeeds by blast
  have "run_attempt (world a) prev_key s = (if is_status_402 e then Done (Inl e) s3 else Retry key e s3)"
    using assms s3 by (simp add: run_attempt_def on_exception_def s2_def Let_def)
  then have "chat_attempts world (a # rest) prev_key last_error s =
               (if is_status_402 e then (Inl e, s3)
                else chat_attempts world rest (Some key) (Some e) s3)"
    by simp
  with s3 show ?thesis unfolding s2_def by simp
qed

theorem only_status_402_aborts_witness:
  "get_next_available_key (select_time (always_402 0)) two_key_manager
     = (Inr ''sk-1'', two_key_manager)
   \<and> key_usage_stats two_key_manager ''sk-1'' = Some fresh_stats
   \<and> outcome (always_402 0) = Raises error_402
   \<and> is_status_402 error_402
   \<and> fst (chat_completion always_402 two_key_manager) = Inl error_402
   \<and> map_option requests
        (key_usage_stats (snd (chat_completion always_402 two_key_manager)) ''sk-2'') = Some 0"
proof -
  have sel: "get_next_available_key (select_time (always_402 0)) two_key_manager
     = (Inr ''sk-1'', two_key_manager)"
    by (rule two_key_first_selection)
  have u: "key_usage_stats two_key_manager ''sk-1'' = Some fresh_stats"
    by (simp add: two_key_manager_def)
  have out: "outcome (always_402 0) = Raises error_402"
    by (simp add: always_402_def)
  have att: "[0 ..< max_retries] = 0 # [1, 2]"
    by (simp add: max_retries_def upt_rec)
  from only_status_402_aborts [where world = always_402 and a = 0 and rest = "[1, 2]"
      and prev_key = None and last_error = None, OF sel u out]
  obtain s3 where
    h: "handle_api_error (failure_time (always_402 0)) ''sk-1'' error_402
          (two_key_manager\<lparr>key_usage_stats := (key_usage_stats two_key_manager)(''sk-1'' \<mapsto>
             fresh_stats\<lparr>requests := requests fresh_stats + 1,
               stat_last_used := Some (select_time (always_402 0))\<rparr>)\<rparr>) = Inr s3"
    and r: "chat_attempts always_402 (0 # [1, 2]) None None two_key_manager = (Inl error_402, s3)"
    using status_of_examples(1) by auto
  from h have "map_option requests (key_usage_stats s3 ''sk-2'') = Some 0"
    by (auto simp: handle_api_error_def class_402 Let_def two_key_manager_def fresh_stats_def)
  with r sel u out status_of_examples(1) show ?thesis
    by (simp add: chat_completion_def att)
qed


section \<open>Cooldowns set by reported failures\<close>

text \<open>
  Claim C9 (reporting a payment-required failure never decreases the cooldown expiry in
  effect for the key; a rate-limit cooldown followed by a payment-required report is
  extended to the hour-scale duration). In every state the manager can be in, with a
  clock that does not run backwards: the new expiry is one hour after the report, the
  expiry in effect is not later than that, and it is strictly earlier when the key was
  not already out of credits (so when only a rate-limit or generic cooldown was in
  effect).
\<close>

theorem payment_required_extends_cooldown:
  assumes "or_reachable now s"
    and "key_usage_stats s key = Some stats"
    and "key_cooldowns s key = Some T"
    and "is_payment_error (lower (error_str e))"
  shows "\<exists>s'. handle_api_error now key e s = Inr s'
           \<and> key_cooldowns s' key = Some (now + hours 1)
           \<and> T \<le> now + hours 1
           \<and> (\<not> credits_exhausted stats \<longrightarrow> T < now + hours 1)"
proof -
  from assms(1) have "cooldowns_bounded now s" by (rule reachable_bounded)
  from this assms(3,2) have b: "T \<le> now + cooldown_bound stats" by (rule cooldowns_boundedD)
  have le: "T \<le> now + hours 1"
    using b cooldown_bound_le [of stats] by simp
  have lt: "T < now + hours 1" if "\<not> credits_exhausted stats"
    using b that durations_ordered by (simp add: cooldown_bound_def split: if_splits)
  have "handle_api_error now key e s =
      Inr (s\<lparr>key_usage_stats := (key_usage_stats s)(key \<mapsto>
               stats\<lparr>errors := errors stats + 1, credits_exhausted := True\<rparr>),
             key_cooldowns := (key_cooldowns s)(key \<mapsto> now + hours 1)\<rparr>)"
    using assms(2,4) by (simp add: handle_api_error_def Let_def)
  with le lt show ?thesis by simp
qed

theorem payment_required_extends_cooldown_witness:
  "or_reachable (minutes 1) limited_manager
   \<and> key_cooldowns limited_manager ''sk-1'' = Some (minutes 5)
   \<and> is_payment_error (lower (error_str error_402))
   \<and> (\<exists>s'. handle_api_error (minutes 1) ''sk-1'' error_402 limited_manager = Inr s'
          \<and> key_cooldowns s' ''sk-1'' = Some (minutes 1 + hours 1))
   \<and> minutes 5 < minutes 1 + hours 1"
proof -
  have u: "key_usage_stats limited_manager ''sk-1''
      = Some (fresh_stats\<lparr>errors := 1, rate_limited := True\<rparr>)"
    and c: "key_cooldowns limited_manager ''sk-1'' = Some (minutes 5)"
    by (simp_all add: limited_manager_def)
  show ?thesis
    using payment_required_extends_cooldown [OF limited_reachable u c class_402]
      limited_reachable c class_402
    by (auto simp: fresh_stats_def)
qed

text \<open>
  Claim C10 (a reported failure overwrites the cooldown expiry of the key with the
  duration of its own class, whatever expiry was in effect: one hour for payment,
  five minutes for rate limit, thirty seconds otherwise; so a later failure of a
  lower class can shorten the exclusion). The witness is the case the claim names: a
  one-hour cooldown set at time 0 is replaced, by a generic failure ten seconds
  later, with one that ends at second 40.
\<close>

theorem report_overwrites_cooldown:
  assumes "key_usage_stats s key = Some stats"
  shows "\<exists>s'. handle_api_error now key e s = Inr s'
           \<and> key_cooldowns s' key =
               Some (now + (if is_payment_error (lower (error_str e)) then hours 1
                            else if is_rate_limit_error (lower (error_str e)) then minutes 5
                            else seconds 30))"
  using assms by (simp add: handle_api_error_def Let_def)

theorem report_overwrites_cooldown_witness:
  "handle_api_error 0 ''sk-1'' error_402 one_key_manager = Inr exhausted_manager
   \<and> key_cooldowns exhausted_manager ''sk-1'' = Some (hours 1)
   \<and> (\<exists>s'. handle_api_error (seconds 10) ''sk-1'' error_500 exhausted_manager = Inr s'
          \<and> key_cooldowns s' ''sk-1'' = Some (seconds 10 + seconds 30))
   \<and> seconds 10 + seconds 30 < hours 1"
proof -
  have u: "key_usage_stats exhausted_manager ''sk-1''
      = Some (fresh_stats\<lparr>errors := 1, credits_exhausted := True\<rparr>)"
    by (simp add: exhausted_manager_def)
  have "seconds 10 + seconds 30 < hours 1"
    by (simp add: seconds_def hours_def)
  moreover have "key_cooldowns exhausted_manager ''sk-1'' = Some (hours 1)"
    by (simp add: exhausted_manager_def)
  ultimately show ?thesis
    using report_overwrites_cooldown [OF u, of "seconds 10" error_500] one_key_exhausted class_500
    by simp
qed

section \<open>Health evaluation and the scan of a pool\<close>

lemma unavailable_unchanged:
  "\<not> fst (is_api_available now api) \<Longrightarrow> snd (is_api_available now api) = api"
  by (auto simp: is_api_available_def split: option.splits if_splits)

lemma available_status:
  assumes "is_api_available now api = (True, api')"
  shows "status api' = ACTIVE \<or> (status api' = ERROR \<and> error_count api' \<le> 5)"
  using assms by (cases "status api") (auto simp: is_api_available_def split: option.splits if_splits)

lemma usable_status:
  assumes "status api = ACTIVE \<or> (status api = ERROR \<and> error_count api \<le> 5)"
  shows "is_api_available now api = (True, api)"
  using assms by (auto simp: is_api_available_def)

lemma scan_pool_found:
  assumes "scan_pool now start pool offs = Some (index, pool1)" and "pool \<noteq> []"
  shows "index < length pool \<and> fst (is_api_available now (pool ! index))
         \<and> pool1 = pool[index := snd (is_api_available now (pool ! index))]"
  using assms
proof (induction offs arbitrary: pool)
  case Nil
  then show ?case by simp
next
  case (Cons i rest)
  define k where "k = (start + i) mod length pool"
  have k: "k < length pool" using Cons.prems(2) by (simp add: k_def)
  show ?case
  proof (cases "fst (is_api_available now (pool ! k))")
    case True
    with Cons.prems(1) have "index = k" "pool1 = pool[k := snd (is_api_available now (pool ! k))]"
      by (auto simp: k_def Let_def split: prod.splits)
    with True k show ?thesis by simp
  next
    case False
    then have same: "pool[k := snd (is_api_available now (pool ! k))] = pool"
      by (simp add: unavailable_unchanged)
    from False Cons.prems(1) have "scan_pool now start (pool[k := snd (is_api_available now (pool ! k))]) rest
        = Some (index, pool1)"
      by (auto simp: k_def Let_def split: prod.splits)
    with same have "scan_pool now start pool rest = Some (index, pool1)" by simp
    then show ?thesis using Cons.prems(2) by (rule Cons.IH)
  qed
qed

lemma scan_pool_none:
  assumes "scan_pool now start pool offs = None" and "i \<in> set offs"
  shows "\<not> fst (is_api_available now (pool ! ((start + i) mod length pool)))"
  using assms
proof (induction offs arbitrary: pool)
  case Nil
  then show ?case by simp
next
  case (Cons j rest)
  define k where "k = (start + j) mod length pool"
  from Cons.prems(1) have unav: "\<not> fst (is_api_available now (pool ! k))"
    by (auto simp: k_def Let_def split: prod.splits if_splits)
  then have same: "pool[k := snd (is_api_available now (pool ! k))] = pool"
    by (simp add: unavailable_unchanged)
  from unav Cons.prems(1) have "scan_pool now start (pool[k := snd (is_api_available now (pool ! k))]) rest = None"
    by (auto simp: k_def Let_def split: prod.splits)
  with same have rest: "scan_pool now start pool rest = None" by simp
  show ?case
  proof (cases "i = j")
    case True
    with unav show ?thesis by (simp add: k_def)
  next
    case False
    with Cons.prems(2) have "i \<in> set rest" by simp
    with rest show ?thesis by (rule Cons.IH)
  qed
qed

lemma scan_pool_all_unavailable:
  assumes "\<forall>api \<in> set pool. \<not> fst (is_api_available now api)" and "pool \<noteq> []"
  shows "scan_pool now start pool offs = None"
  using assms
proof (induction offs)
  case Nil
  then show ?case by simp
next
  case (Cons i rest)
  define k where "k = (start + i) mod length pool"
  have "k < length pool" using Cons.prems(2) by (simp add: k_def)
  then have "pool ! k \<in> set pool" by simp
  with Cons.prems have unav: "\<not> fst (is_api_available now (pool ! k))" by blast
  then have same: "pool[k := snd (is_api_available now (pool ! k))] = pool"
    by (simp add: unavailable_unchanged)
  have "scan_pool now start pool (i # rest)
      = scan_pool now start (pool[k := snd (is_api_available now (pool ! k))]) rest"
    using unav by (simp add: k_def Let_def case_prod_beta)
  also have "\<dots> = scan_pool now start pool rest"
    by (simp only: same)
  also have "\<dots> = None"
    using Cons.prems by (rule Cons.IH)
  finally show ?case .
qed

lemma scan_pool_first:
  assumes "start < length pool" and "is_api_available now (pool ! start) = (True, api)"
  shows "scan_pool now start pool (0 # rest) = Some (start, pool[start := api])"
  using assms by (simp add: Let_def)

lemma get_active_api_exhausted:
  assumes "apis s service = Some pool" and "current_api_index s service = Some c"
    and "\<not> needs_health_check now service s"
    and "\<forall>api \<in> set pool. \<not> fst (is_api_available now api)"
  shows "get_active_api now service False s = (Inr None, s)"
proof (cases pool)
  case Nil
  with assms(1) show ?thesis by (simp add: get_active_api_def)
next
  case (Cons a as)
  then have "pool \<noteq> []" by simp
  with assms(4) have "scan_pool now c pool [0 ..< length pool] = None"
    by (rule scan_pool_all_unavailable)
  with assms(1,2,3) Cons show ?thesis
    by (simp add: get_active_api_def)
qed

lemma get_active_api_result:
  assumes "get_active_api now service force_check s = (Inr (Some api), s')"
  shows "\<exists>index pool'. apis s' service = Some pool' \<and> current_api_index s' service = Some index
           \<and> index < length pool' \<and> pool' ! index = api
           \<and> (status api = ACTIVE \<or> (status api = ERROR \<and> error_count api \<le> 5))
           \<and> last_health_check s' service \<noteq> None"
proof -
  define s1 where "s1 = (if force_check \<or> needs_health_check now service s
                     then perform_health_check now service s else s)"
  from assms obtain a as where p0: "apis s service = Some (a # as)"
    by (auto simp: get_active_api_def split: option.splits list.splits)
  from assms p0 obtain pool start index pool1 where
    pool: "apis s1 service = Some pool"
    and start: "current_api_index s1 service = Some start"
    and scan: "scan_pool now start pool [0 ..< length pool] = Some (index, pool1)"
    by (auto simp: get_active_api_def s1_def [symmetric] Let_def split: option.splits)
  define api1 where "api1 = (pool1 ! index)\<lparr>last_used := Some now,
                                   requests_made := requests_made (pool1 ! index) + 1\<rparr>"
  from assms p0 pool start scan have api: "api = api1"
    and s': "s' = s1\<lparr>apis := (apis s1)(service \<mapsto> pool1[index := api1]),
                      current_api_index := (current_api_index s1)(service \<mapsto> index)\<rparr>"
    by (auto simp: get_active_api_def s1_def [symmetric] Let_def api1_def)
  have ne: "pool \<noteq> []"
    using p0 pool by (auto simp: s1_def perform_health_check_def split: if_splits)
  from scan_pool_found [OF scan ne] have idx: "index < length pool"
    and av: "fst (is_api_available now (pool ! index))"
    and p1: "pool1 = pool[index := snd (is_api_available now (pool ! index))]"
    by simp_all
  from idx p1 have at: "pool1 ! index = snd (is_api_available now (pool ! index))"
    and len: "length pool1 = length pool" by simp_all
  from av have "is_api_available now (pool ! index) = (True, pool1 ! index)"
    using at by (simp add: prod_eq_iff)
  then have "status (pool1 ! index) = ACTIVE \<or> (status (pool1 ! index) = ERROR \<and> error_count (pool1 ! index) \<le> 5)"
    by (rule available_status)
  then have st: "status api = ACTIVE \<or> (status api = ERROR \<and> error_count api \<le> 5)"
    by (simp add: api api1_def)
  have lhc: "last_health_check s' service \<noteq> None"
  proof (cases "force_check \<or> needs_health_check now service s")
    case True
    with p0 show ?thesis by (simp add: s' s1_def perform_health_check_def)
  next
    case False
    then show ?thesis
      by (auto simp: s' s1_def needs_health_check_def split: option.splits)
  qed
  from idx len st lhc show ?thesis
    by (simp add: s' api)
qed

lemma update_first_nth:
  assumes "i < length pool" and "name (pool ! i) = api_name"
    and "\<forall>j<i. name (pool ! j) \<noteq> api_name"
  shows "update_first api_name f pool = pool[i := f (pool ! i)]"
  using assms
proof (induction pool arbitrary: i)
  case Nil
  then show ?case by simp
next
  case (Cons a rest)
  show ?case
  proof (cases i)
    case 0
    with Cons.prems show ?thesis by simp
  next
    case (Suc k)
    with Cons.prems(3) have "name a \<noteq> api_name" by auto
    moreover from Suc Cons.prems have "update_first api_name f rest = rest[k := f (rest ! k)]"
      by (intro Cons.IH) auto
    ultimately show ?thesis using Suc by simp
  qed
qed

lemma selection_leaves_cursor_on_record:
  assumes "get_active_api now service force_check s = (Inr (Some api), s')"
  shows "\<exists>index pool'. apis s' service = Some pool' \<and> current_api_index s' service = Some index
           \<and> index < length pool' \<and> pool' ! index = api
           \<and> (\<forall>now2. \<not> needs_health_check now2 service s' \<longrightarrow>
                 fst (get_active_api now2 service False s')
                   = Inr (Some (api\<lparr>last_used := Some now2,
                                     requests_made := requests_made api + 1\<rparr>)))"
proof -
  from get_active_api_result [OF assms] obtain index pool' where
    pool: "apis s' service = Some pool'" and cur: "current_api_index s' service = Some index"
    and idx: "index < length pool'" and at: "pool' ! index = api"
    and st: "status api = ACTIVE \<or> (status api = ERROR \<and> error_count api \<le> 5)"
    by blast
  have again: "fst (get_active_api now2 service False s')
                   = Inr (Some (api\<lparr>last_used := Some now2,
                                     requests_made := requests_made api + 1\<rparr>))"
    if nc: "\<not> needs_health_check now2 service s'" for now2
  proof -
    from idx obtain a as where cons: "pool' = a # as" by (cases pool') auto
    from idx have "0 < length pool'" by auto
    then have upt: "[0 ..< length pool'] = 0 # [1 ..< length pool']"
      by (simp add: upt_conv_Cons)
    from st have "is_api_available now2 (pool' ! index) = (True, api)"
      unfolding at by (rule usable_status)
    with idx have "scan_pool now2 index pool' (0 # [1 ..< length pool']) = Some (index, pool'[index := api])"
      by (rule scan_pool_first)
    moreover have "pool'[index := api] = pool'"
      using at by (simp add: list_update_same_conv idx)
    ultimately have "scan_pool now2 index pool' [0 ..< length pool'] = Some (index, pool')"
      by (simp only: upt)
    with pool cur nc cons at show ?thesis
      by (simp add: get_active_api_def Let_def)
  qed
  with pool cur idx at show ?thesis by blast
qed


section \<open>What the constructors read\<close>

lemma openrouter_variables_read:
  "''OPENROUTER_API_KEY'' # map (\<lambda>i. ''OPENROUTER_API_KEY_'' @ str_nat i) [1 ..< 10]
     = openrouter_variables"
  by code_simp

lemma load_api_keys_fails_iff:
  "load_api_keys getenv = Inl (ValueError no_keys_msg)
     \<longleftrightarrow> (\<forall>v \<in> set openrouter_variables. \<not> truthy (getenv v))"
proof -
  have "load_api_keys getenv =
      (let keys = env_keys getenv openrouter_variables
       in if keys = [] then Inl (ValueError no_keys_msg) else Inr keys)"
    by (simp only: load_api_keys_def openrouter_variables_read)
  then have "load_api_keys getenv = Inl (ValueError no_keys_msg)
      \<longleftrightarrow> env_keys getenv openrouter_variables = []"
    by (simp add: Let_def)
  also have "\<dots> \<longleftrightarrow> (\<forall>v \<in> set openrouter_variables. \<not> truthy (getenv v))"
    by (simp add: env_keys_def filter_empty_conv)
  finally show ?thesis .
qed

lemma or_init_fails_iff:
  "or_init getenv = Inl (ValueError no_keys_msg)
     \<longleftrightarrow> (\<forall>v \<in> set openrouter_variables. \<not> truthy (getenv v))"
proof -
  have "or_init getenv = Inl (ValueError no_keys_msg)
      \<longleftrightarrow> load_api_keys getenv = Inl (ValueError no_keys_msg)"
    by (cases "load_api_keys getenv") (simp_all add: or_init_def)
  then show ?thesis by (simp only: load_api_keys_fails_iff)
qed

lemma endpoints_of_unconfigured:
  assumes "\<forall>v \<in> set keys. \<not> truthy v"
  shows "endpoints_of prefix url cap placeholders keys = []"
proof -
  have "\<forall>p \<in> set (enumerate 1 keys). \<not> configured placeholders (snd p)"
    using assms by (auto simp: configured_def in_set_enumerate_eq)
  then have "filter (\<lambda>(i, v). configured placeholders v) (enumerate 1 keys) = []"
    by (auto simp: filter_empty_conv)
  then show ?thesis by (simp add: endpoints_of_def)
qed

lemma endpoint_of_unconfigured:
  assumes "\<not> truthy v"
  shows "endpoint_of nm url cap placeholders v = []"
  using assms by (simp add: endpoint_of_def configured_def)

lemma service_names_cases:
  assumes "service \<in> set service_names"
  shows "service = ''qwen'' \<or> service = ''gemini'' \<or> service = ''groq''
         \<or> service = ''tavily'' \<or> service = ''exa'' \<or> service = ''serpapi''
         \<or> service = ''youtube''"
  using assms unfolding service_names_def
  by (simp only: list.set insert_iff empty_iff simp_thms)

lemma load_pool_unconfigured:
  assumes "service \<in> set service_names"
    and "\<forall>v \<in> set (service_variables service). \<not> truthy (getenv v)"
  shows "load_pool getenv service = []"
proof -
  from service_names_cases [OF assms(1)] show ?thesis
  proof (elim disjE)
    assume 1: "service = ''qwen''"
    with assms(2) have "\<forall>v \<in> set [getenv ''OPENROUTER_API_KEY'', getenv ''OPENROUTER_API_KEY_1'',
           getenv ''OPENROUTER_API_KEY_2'']. \<not> truthy v"
      by (simp add: service_variables_def)
    then have "endpoints_of ''qwen_'' url 100 [''your_openrouter_key_1'', ''your_openrouter_key_2'']
          [getenv ''OPENROUTER_API_KEY'', getenv ''OPENROUTER_API_KEY_1'',
           getenv ''OPENROUTER_API_KEY_2''] = []" for url
      by (rule endpoints_of_unconfigured)
    then show ?thesis
      unfolding 1 load_pool_def by simp
  next
    assume 2: "service = ''gemini''"
    with assms(2) have "\<forall>v \<in> set [getenv ''GEMINI_API_KEY'', getenv ''GEMINI_API_KEY_1'']. \<not> truthy v"
      by (simp add: service_variables_def)
    then have "endpoints_of ''gemini_'' ''https://generativelanguage.googleapis.com/v1beta''
          60 [''your_gemini_key_1'', ''your_gemini_key_2'']
          [getenv ''GEMINI_API_KEY'', getenv ''GEMINI_API_KEY_1''] = []"
      by (rule endpoints_of_unconfigured)
    then show ?thesis
      unfolding 2 load_pool_def by simp
  next
    assume 3: "service = ''groq''"
    with assms(2) have "\<forall>v \<in> set [getenv ''GROQ_API_KEY'', getenv ''GROQ_API_KEY_1'']. \<not> truthy v"
      by (simp add: service_variables_def)
    then have "endpoints_of ''groq_'' ''https://api.groq.com/openai/v1''
          30 [''your_groq_key_1'', ''your_groq_key_2'']
          [getenv ''GROQ_API_KEY'', getenv ''GROQ_API_KEY_1''] = []"
      by (rule endpoints_of_unconfigured)
    then show ?thesis
      unfolding 3 load_pool_def by simp
  next
    assume 4: "service = ''tavily''"
    with assms(2) have "\<not> truthy (getenv ''TAVILY_API_KEY'')"
      by (simp add: service_variables_def)
    then have "endpoint_of ''tavily_1'' ''https://api.tavily.com'' 100 [''your_tavily_key_1'']
          (getenv ''TAVILY_API_KEY'') = []"
      by (rule endpoint_of_unconfigured)
    then show ?thesis
      unfolding 4 load_pool_def by simp
  next
    assume 5: "service = ''exa''"
    with assms(2) have "\<forall>v \<in> set [getenv ''EXA_API_KEY'', getenv ''EXA_API_KEY_1'']. \<not> truthy v"
      by (simp add: service_variables_def)
    then have "endpoints_of ''exa_'' ''https://api.exa.ai'' 100 [''your_exa_key_1'']
          [getenv ''EXA_API_KEY'', getenv ''EXA_API_KEY_1''] = []"
      by (rule endpoints_of_unconfigured)
    then show ?thesis
      unfolding 5 load_pool_def by simp
  next
    assume 6: "service = ''serpapi''"
    with assms(2) have "\<not> truthy (getenv ''SERPER_API_KEY'')"
      by (simp add: service_variables_def)
    then have "endpoint_of ''serper_1'' ''https://google.serper.dev/search'' 100
          [''your_serpapi_key_1''] (getenv ''SERPER_API_KEY'') = []"
      by (rule endpoint_of_unconfigured)
    then show ?thesis
      unfolding 6 load_pool_def by simp
  next
    assume 7: "service = ''youtube''"
    with assms(2) have "\<not> truthy (getenv ''YOUTUBE_API_KEY'')"
      by (simp add: service_variables_def)
    then have "endpoint_of ''youtube_1'' ''https://www.googleapis.com/youtube/v3'' 100
          [''your_youtube_key_1''] (getenv ''YOUTUBE_API_KEY'') = []"
      by (rule endpoint_of_unconfigured)
    then show ?thesis
      unfolding 7 load_pool_def by simp
  qed
qed

lemma empty_env_pool: "load_pool empty_env service = []"
  by (simp add: load_pool_def endpoints_of_def endpoint_of_def configured_def truthy_def
      empty_env_def)

section \<open>Selection in the multi-service manager\<close>

text \<open>
  Claim C3 as stated (two successful selections in a row never return the same record
  unless only one record is usable; the next scan starts one past the record returned)
  fails for \<open>get_active_api\<close>: with two usable Gemini records, the selections at
  time 0 and one second later both return \<open>gemini_1\<close>.
\<close>

theorem same_record_twice:
  "selected_name first_selection = Some ''gemini_1''
   \<and> selected_name second_selection = Some ''gemini_1''
   \<and> usable_records (seconds 1) ''gemini'' (snd first_selection) = Some [''gemini_1'', ''gemini_2'']"
  by code_simp

text \<open>
  Claim C3, amended: a successful \<open>get_active_api\<close> leaves the cursor of the service
  on the index of the record it returns, so the next scan starts at that record, and
  every later selection made while no health check is due returns that same record
  again, with its use counter one higher, whatever the other records are. Only the
  OpenRouter manager moves on: after an attempt of \<open>chat_completion\<close> that succeeds,
  its cursor is one past the position where the selection stopped, and that position
  holds the key used unless that key was in cooldown.
\<close>

theorem cursor_after_selection:
  "(get_active_api now service force_check s = (Inr (Some api), s') \<longrightarrow>
      (\<exists>index pool'. apis s' service = Some pool' \<and> current_api_index s' service = Some index
           \<and> index < length pool' \<and> pool' ! index = api
           \<and> (\<forall>now2. \<not> needs_health_check now2 service s' \<longrightarrow>
                 fst (get_active_api now2 service False s')
                   = Inr (Some (api\<lparr>last_used := Some now2,
                                     requests_made := requests_made api + 1\<rparr>)))))
   \<and> (or_reachable (select_time io) t \<and> run_attempt io prev t = Done (Inr r) t' \<longrightarrow>
      (\<exists>key t1. get_next_available_key (select_time io) t = (Inr key, t1)
           \<and> current_key_index t' = (current_key_index t1 + 1) mod length (api_keys t1)
           \<and> (cooling (select_time io) t key \<or> api_keys t1 ! current_key_index t1 = key)))"
proof (intro conjI impI)
  assume "get_active_api now service force_check s = (Inr (Some api), s')"
  then show "\<exists>index pool'. apis s' service = Some pool' \<and> current_api_index s' service = Some index
           \<and> index < length pool' \<and> pool' ! index = api
           \<and> (\<forall>now2. \<not> needs_health_check now2 service s' \<longrightarrow>
                 fst (get_active_api now2 service False s')
                   = Inr (Some (api\<lparr>last_used := Some now2,
                                     requests_made := requests_made api + 1\<rparr>)))"
    by (rule selection_leaves_cursor_on_record)
next
  assume "or_reachable (select_time io) t \<and> run_attempt io prev t = Done (Inr r) t'"
  then have "or_reachable (select_time io) t" and "run_attempt io prev t = Done (Inr r) t'"
    by simp_all
  then show "\<exists>key t1. get_next_available_key (select_time io) t = (Inr key, t1)
           \<and> current_key_index t' = (current_key_index t1 + 1) mod length (api_keys t1)
           \<and> (cooling (select_time io) t key \<or> api_keys t1 ! current_key_index t1 = key)"
    by (rule successful_attempt_rotates)
qed

theorem cursor_after_selection_witness:
  "get_active_api 0 ''gemini'' False two_gemini_manager
     = (Inr (Some (gemini_1\<lparr>last_used := Some 0, requests_made := 1\<rparr>)), snd first_selection)
   \<and> \<not> needs_health_check (seconds 1) ''gemini'' (snd first_selection)
   \<and> fst (get_active_api (seconds 1) ''gemini'' False (snd first_selection))
       = Inr (Some (gemini_1\<lparr>last_used := Some (seconds 1), requests_made := 2\<rparr>))
   \<and> or_reachable (select_time (always_ok 0)) two_key_manager
   \<and> (\<exists>t'. run_attempt (always_ok 0) None two_key_manager = Done (Inr ''ok'') t'
          \<and> current_key_index t' = 1)"
proof -
  have sel: "get_active_api 0 ''gemini'' False two_gemini_manager
     = (Inr (Some (gemini_1\<lparr>last_used := Some 0, requests_made := 1\<rparr>)), snd first_selection)"
    using first_selection_result by (simp add: first_selection_def prod_eq_iff)
  note both = cursor_after_selection [of 0 "''gemini''" False two_gemini_manager
      "gemini_1\<lparr>last_used := Some 0, requests_made := 1\<rparr>" "snd first_selection"
      "always_ok 0" two_key_manager None "''ok''"]
  from both sel first_selection_fresh
  have again: "fst (get_active_api (seconds 1) ''gemini'' False (snd first_selection))
       = Inr (Some (gemini_1\<lparr>last_used := Some 0, requests_made := 1\<rparr>
              \<lparr>last_used := Some (seconds 1),
               requests_made := requests_made (gemini_1\<lparr>last_used := Some 0, requests_made := 1\<rparr>) + 1\<rparr>))"
    by blast
  obtain t' where run: "run_attempt (always_ok 0) None two_key_manager = Done (Inr ''ok'') t'"
    using first_attempt_ok by blast
  from both two_key_reachable run
  obtain key t1 where "get_next_available_key (select_time (always_ok 0)) two_key_manager = (Inr key, t1)"
    and c: "current_key_index t' = (current_key_index t1 + 1) mod length (api_keys t1)"
    by blast
  with two_key_first_selection have "t1 = two_key_manager" by simp
  with c have "current_key_index t' = 1" by (simp add: two_key_manager_def)
  with run have "\<exists>t'. run_attempt (always_ok 0) None two_key_manager = Done (Inr ''ok'') t'
          \<and> current_key_index t' = 1" by blast
  with sel first_selection_fresh again two_key_reachable show ?thesis by simp
qed

section \<open>Health transitions of a record\<close>

text \<open>
  Claim C4 as stated (the lazy per-record evaluation moves a record whose request
  counter has reached its cap to RATE_LIMITED and finds it unusable) fails:
  \<open>_is_api_available\<close> does not read the counter. A record with 60 requests made,
  a cap of 60 and no errors is found available and is left ACTIVE.
\<close>

theorem lazy_evaluation_ignores_cap:
  "requests_made capped_endpoint = max_requests_per_minute capped_endpoint
   \<and> error_count capped_endpoint = 0
   \<and> is_api_available 0 capped_endpoint = (True, capped_endpoint)
   \<and> status capped_endpoint = ACTIVE"
  by (simp add: capped_endpoint_def new_endpoint_def is_api_available_def)

text \<open>
  Claim C4, amended: the cap is enforced by the health sweep. For a record that is not
  OFFLINE and has no reset time that has passed, whose counter has reached its cap,
  \<open>_perform_health_check\<close> sets RATE_LIMITED with reset time now plus one minute,
  whatever the error count, and the evaluation that follows finds it unusable; the
  answer of the lazy evaluation itself does not depend on the counter or the cap.
\<close>

theorem cap_enforced_by_sweep:
  assumes "status api \<noteq> OFFLINE"
    and "requests_made api \<ge> max_requests_per_minute api"
    and "\<forall>reset. rate_limit_reset api = Some reset \<longrightarrow> now \<le> reset"
  shows "sweep_api now api = api\<lparr>status := RATE_LIMITED, rate_limit_reset := Some (now + minutes 1)\<rparr>
         \<and> is_api_available now (sweep_api now api) = (False, sweep_api now api)
         \<and> fst (is_api_available now (api\<lparr>requests_made := n, max_requests_per_minute := m\<rparr>))
             = fst (is_api_available now api)"
proof -
  have sw: "sweep_api now api = api\<lparr>status := RATE_LIMITED, rate_limit_reset := Some (now + minutes 1)\<rparr>"
    using assms by (cases "rate_limit_reset api") (auto simp: sweep_api_def Let_def)
  have "is_api_available now (api\<lparr>status := RATE_LIMITED, rate_limit_reset := Some (now + minutes 1)\<rparr>)
      = (False, api\<lparr>status := RATE_LIMITED, rate_limit_reset := Some (now + minutes 1)\<rparr>)"
    by (simp add: is_api_available_def minutes_def)
  moreover have "fst (is_api_available now (api\<lparr>requests_made := n, max_requests_per_minute := m\<rparr>))
             = fst (is_api_available now api)"
    by (simp add: is_api_available_def split: option.splits)
  ultimately show ?thesis using sw by simp
qed

theorem cap_enforced_by_sweep_witness:
  "status capped_endpoint \<noteq> OFFLINE
   \<and> requests_made capped_endpoint \<ge> max_requests_per_minute capped_endpoint
   \<and> rate_limit_reset capped_endpoint = None
   \<and> status (sweep_api 0 capped_endpoint) = RATE_LIMITED
   \<and> rate_limit_reset (sweep_api 0 capped_endpoint) = Some (minutes 1)
   \<and> is_api_available 0 (sweep_api 0 capped_endpoint) = (False, sweep_api 0 capped_endpoint)"
proof -
  have a: "status capped_endpoint \<noteq> OFFLINE"
    and b: "requests_made capped_endpoint \<ge> max_requests_per_minute capped_endpoint"
    and c: "rate_limit_reset capped_endpoint = None"
    by (simp_all add: capped_endpoint_def new_endpoint_def)
  from c have c': "\<forall>reset. rate_limit_reset capped_endpoint = Some reset \<longrightarrow> 0 \<le> reset"
    by simp
  note sweep = cap_enforced_by_sweep [OF a b c', of 0 0]
  from sweep have s1: "sweep_api 0 capped_endpoint
      = capped_endpoint\<lparr>status := RATE_LIMITED, rate_limit_reset := Some (0 + minutes 1)\<rparr>"
    by (rule conjunct1)
  from sweep have s2: "is_api_available 0 (sweep_api 0 capped_endpoint)
      = (False, sweep_api 0 capped_endpoint)"
    by (rule conjunct1 [OF conjunct2])
  from s1 have "status (sweep_api 0 capped_endpoint) = RATE_LIMITED"
    and "rate_limit_reset (sweep_api 0 capped_endpoint) = Some (minutes 1)"
    by simp_all
  with a b c s2 show ?thesis by blast
qed

text \<open>
  Claim C5 (\<open>rate_limit_reset\<close> is set exactly when the record is RATE_LIMITED; a
  RATE_LIMITED record whose reset time has passed becomes ACTIVE with the reset time
  cleared and the counter at zero). The code does otherwise in the lazy evaluation:
  \<open>_is_api_available\<close> makes the record ACTIVE and zeroes the counter but keeps the
  reset time, where the sweep of the same record clears it. The reset time left behind
  makes the next sweep zero the counter once more: 30 requests counted after minute 2
  are gone after the sweep of minute 9.
\<close>

theorem lazy_expiry_keeps_reset:
  "status stale_endpoint = RATE_LIMITED
   \<and> rate_limit_reset stale_endpoint = Some (minutes 1)
   \<and> is_api_available (minutes 2) stale_endpoint
       = (True, stale_endpoint\<lparr>status := ACTIVE, requests_made := 0\<rparr>)
   \<and> rate_limit_reset (snd (is_api_available (minutes 2) stale_endpoint)) = Some (minutes 1)
   \<and> rate_limit_reset (sweep_api (minutes 2) stale_endpoint) = None
   \<and> requests_made (sweep_api (minutes 9)
         ((snd (is_api_available (minutes 2) stale_endpoint))\<lparr>requests_made := 30\<rparr>)) = 0"
  by (simp add: stale_endpoint_def new_endpoint_def is_api_available_def sweep_api_def
      minutes_def Let_def)

text \<open>
  Claim C6 (error count past the threshold: the record is ERRORED and excluded from
  selection; after the reset of its service: error count zero, ACTIVE, selectable).
  The threshold of exclusion is 5: a report that takes the count of the record named
  past 5 leaves it in status ERROR (assigned from count 4 on) and the evaluation, at
  any time, finds it unusable; after \<open>reset_api_errors\<close> for the service its count is
  0, its status ACTIVE and the evaluation finds it available. The record is the first
  of its pool with the name reported.
\<close>

theorem error_threshold_excludes_until_reset:
  assumes "apis s service = Some pool" and "i < length pool"
    and "name (pool ! i) = api_name" and "\<forall>j<i. name (pool ! j) \<noteq> api_name"
    and "error_count (pool ! i) \<ge> 5"
  shows "\<exists>s' pool' s'' pool''.
           mark_api_error service api_name s = Inr s' \<and> apis s' service = Some pool'
           \<and> error_count (pool' ! i) = error_count (pool ! i) + 1
           \<and> status (pool' ! i) = ERROR
           \<and> is_api_available now (pool' ! i) = (False, pool' ! i)
           \<and> reset_api_errors (Some service) s' = Inr s'' \<and> apis s'' service = Some pool''
           \<and> error_count (pool'' ! i) = 0
           \<and> status (pool'' ! i) = ACTIVE
           \<and> is_api_available now2 (pool'' ! i) = (True, pool'' ! i)"
proof -
  define pool' where "pool' = pool[i := count_error (pool ! i)]"
  define s' where "s' = s\<lparr>apis := (apis s)(service \<mapsto> pool')\<rparr>"
  define pool'' where "pool'' = map reset_errors pool'"
  have "update_first api_name count_error pool = pool'"
    unfolding pool'_def using assms(2,3,4) by (rule update_first_nth)
  with assms(1) have mark: "mark_api_error service api_name s = Inr s'"
    by (simp add: mark_api_error_def s'_def)
  have p': "apis s' service = Some pool'" by (simp add: s'_def)
  have at: "pool' ! i = count_error (pool ! i)"
    using assms(2) by (simp add: pool'_def)
  have cnt: "error_count (pool' ! i) = error_count (pool ! i) + 1"
    and st: "status (pool' ! i) = ERROR"
    using assms(5) by (simp_all add: at count_error_def Let_def)
  from cnt st assms(5) have unav: "is_api_available now (pool' ! i) = (False, pool' ! i)"
    by (simp add: is_api_available_def)
  have len: "i < length pool'" using assms(2) by (simp add: pool'_def)
  obtain s'' where reset: "reset_api_errors (Some service) s' = Inr s''"
    and p'': "apis s'' service = Some pool''"
  proof (cases "service = []")
    case True
    with p' have "reset_api_errors (Some service) s'
        = Inr (s'\<lparr>apis := (\<lambda>svc. map_option (map reset_errors) (apis s' svc))\<rparr>)"
      by (simp add: reset_api_errors_def truthy_def)
    moreover have "apis (s'\<lparr>apis := (\<lambda>svc. map_option (map reset_errors) (apis s' svc))\<rparr>) service
        = Some pool''"
      using p' by (simp add: pool''_def)
    ultimately show ?thesis by (rule that)
  next
    case False
    with p' have "reset_api_errors (Some service) s'
        = Inr (s'\<lparr>apis := (apis s')(service \<mapsto> map reset_errors pool')\<rparr>)"
      by (simp add: reset_api_errors_def truthy_def)
    moreover have "apis (s'\<lparr>apis := (apis s')(service \<mapsto> map reset_errors pool')\<rparr>) service
        = Some pool''"
      by (simp add: pool''_def)
    ultimately show ?thesis by (rule that)
  qed
  have at'': "pool'' ! i = reset_errors (pool' ! i)"
    using len by (simp add: pool''_def)
  have cnt'': "error_count (pool'' ! i) = 0" and st'': "status (pool'' ! i) = ACTIVE"
    using st by (simp_all add: at'' reset_errors_def Let_def)
  from st'' have av: "is_api_available now2 (pool'' ! i) = (True, pool'' ! i)"
    by (simp add: is_api_available_def)
  from mark p' cnt st unav reset p'' cnt'' st'' av show ?thesis by blast
qed

theorem error_threshold_excludes_until_reset_witness:
  "apis worn_manager ''gemini'' = Some [gemini_1, worn_gemini_2]
   \<and> name gemini_1 \<noteq> ''gemini_2'' \<and> name worn_gemini_2 = ''gemini_2''
   \<and> error_count worn_gemini_2 = 5
   \<and> (\<exists>s' pool' s'' pool''.
         mark_api_error ''gemini'' ''gemini_2'' worn_manager = Inr s'
         \<and> apis s' ''gemini'' = Some pool'
         \<and> error_count (pool' ! 1) = 6 \<and> status (pool' ! 1) = ERROR
         \<and> is_api_available 0 (pool' ! 1) = (False, pool' ! 1)
         \<and> reset_api_errors (Some ''gemini'') s' = Inr s'' \<and> apis s'' ''gemini'' = Some pool''
         \<and> error_count (pool'' ! 1) = 0 \<and> status (pool'' ! 1) = ACTIVE
         \<and> is_api_available 0 (pool'' ! 1) = (True, pool'' ! 1))"
proof -
  have n1: "name gemini_1 \<noteq> ''gemini_2''" and n2: "name worn_gemini_2 = ''gemini_2''"
    and e: "error_count worn_gemini_2 = 5"
    by (simp_all add: gemini_1_def gemini_2_def worn_gemini_2_def new_endpoint_def)
  have h2: "1 < length [gemini_1, worn_gemini_2]" by simp
  have h3: "name ([gemini_1, worn_gemini_2] ! 1) = ''gemini_2''" using n2 by simp
  have h4: "\<forall>j<1. name ([gemini_1, worn_gemini_2] ! j) \<noteq> ''gemini_2''" using n1 by simp
  have h5: "error_count ([gemini_1, worn_gemini_2] ! 1) \<ge> 5" using e by simp
  from error_threshold_excludes_until_reset [OF worn_pool h2 h3 h4 h5, of 0 0]
  have "\<exists>s' pool' s'' pool''.
         mark_api_error ''gemini'' ''gemini_2'' worn_manager = Inr s'
         \<and> apis s' ''gemini'' = Some pool'
         \<and> error_count (pool' ! 1) = 6 \<and> status (pool' ! 1) = ERROR
         \<and> is_api_available 0 (pool' ! 1) = (False, pool' ! 1)
         \<and> reset_api_errors (Some ''gemini'') s' = Inr s'' \<and> apis s'' ''gemini'' = Some pool''
         \<and> error_count (pool'' ! 1) = 0 \<and> status (pool'' ! 1) = ACTIVE
         \<and> is_api_available 0 (pool'' ! 1) = (True, pool'' ! 1)"
    using e by simp
  with worn_pool n1 n2 e show ?thesis by blast
qed


section \<open>Startup without credentials\<close>

text \<open>
  Claim C7 as stated (construction succeeds for every configuration and the absence of
  credentials is never a startup failure) fails for the OpenRouter key manager: with no
  variable set its constructor raises \<open>ValueError\<close>, while the multi-service manager
  starts with an empty pool.
\<close>

theorem key_manager_refuses_to_start:
  "or_init empty_env = Inl (ValueError no_keys_msg)
   \<and> apis (rm_init empty_env 0) ''qwen'' = Some []"
proof -
  have "or_init empty_env = Inl (ValueError no_keys_msg)"
    by (simp add: or_init_fails_iff empty_env_def truthy_def)
  moreover have "apis (rm_init empty_env 0) ''qwen'' = Some []"
    by (simp add: rm_init_def service_names_def empty_env_pool)
  ultimately show ?thesis by simp
qed

text \<open>
  Claim C7, amended: the multi-service manager is constructed for every environment,
  with a pool and a cursor at 0 for each of its seven services; a service none of
  whose variables is set gets the empty pool, and selecting from it returns no record
  and changes nothing. The OpenRouter key manager fails to construct, with
  \<open>ValueError\<close>, exactly when none of its ten key variables is set to a non-empty
  value.
\<close>

theorem missing_credentials_at_startup:
  assumes "service \<in> set service_names"
  shows "apis (rm_init getenv now) service = Some (load_pool getenv service)
         \<and> current_api_index (rm_init getenv now) service = Some 0
         \<and> ((\<forall>v \<in> set (service_variables service). \<not> truthy (getenv v)) \<longrightarrow>
               apis (rm_init getenv now) service = Some []
               \<and> get_active_api now2 service force_check (rm_init getenv now)
                   = (Inr None, rm_init getenv now))
         \<and> (or_init getenv = Inl (ValueError no_keys_msg)
               \<longleftrightarrow> (\<forall>v \<in> set openrouter_variables. \<not> truthy (getenv v)))"
proof -
  from assms have a: "apis (rm_init getenv now) service = Some (load_pool getenv service)"
    and c: "current_api_index (rm_init getenv now) service = Some 0"
    by (simp_all add: rm_init_def)
  have e: "apis (rm_init getenv now) service = Some []
           \<and> get_active_api now2 service force_check (rm_init getenv now)
               = (Inr None, rm_init getenv now)"
    if "\<forall>v \<in> set (service_variables service). \<not> truthy (getenv v)"
  proof -
    from assms that have "load_pool getenv service = []" by (rule load_pool_unconfigured)
    with a have "apis (rm_init getenv now) service = Some []" by simp
    then show ?thesis by (simp add: get_active_api_def)
  qed
  from a c e or_init_fails_iff [of getenv] show ?thesis by blast
qed

theorem missing_credentials_at_startup_witness:
  "''gemini'' \<in> set service_names
   \<and> \<not> truthy (one_key_env ''GEMINI_API_KEY'') \<and> \<not> truthy (one_key_env ''GEMINI_API_KEY_1'')
   \<and> apis (rm_init one_key_env 0) ''gemini'' = Some []
   \<and> current_api_index (rm_init one_key_env 0) ''gemini'' = Some 0
   \<and> get_active_api 0 ''gemini'' False (rm_init one_key_env 0) = (Inr None, rm_init one_key_env 0)
   \<and> or_init one_key_env \<noteq> Inl (ValueError no_keys_msg)"
proof -
  have m: "''gemini'' \<in> set service_names" by (simp add: service_names_def)
  have u: "\<not> truthy (one_key_env ''GEMINI_API_KEY'')" "\<not> truthy (one_key_env ''GEMINI_API_KEY_1'')"
    by (simp_all add: one_key_env_def truthy_def)
  have ok: "or_init one_key_env \<noteq> Inl (ValueError no_keys_msg)"
    by (simp add: one_key_init)
  from missing_credentials_at_startup [OF m, of one_key_env 0 0 False] gemini_unset
  have "apis (rm_init one_key_env 0) ''gemini'' = Some []"
    and "current_api_index (rm_init one_key_env 0) ''gemini'' = Some 0"
    and "get_active_api 0 ''gemini'' False (rm_init one_key_env 0) = (Inr None, rm_init one_key_env 0)"
    by blast+
  with m u ok show ?thesis by blast
qed

end
